theory Spec2Isabelle
  imports Main "HOL-Library.Sublist" "HOL-Library.AList"
begin

section \<open>The file system, the environment and the effects of \<^verbatim>\<open>patcher.py\<close>\<close>

text \<open>
  \<^verbatim>\<open>patcher.py\<close> works on the file system through \<^verbatim>\<open>os\<close>, \<^verbatim>\<open>shutil\<close>,
  \<^verbatim>\<open>zipfile\<close> and \<^verbatim>\<open>requests\<close>. The file system is a table of entries in the
  order in which \<^verbatim>\<open>os.listdir\<close> enumerates them; a path is the list of its components,
  so \<^verbatim>\<open>os.path.join(p, name)\<close> is \<open>p @ [name]\<close>. An entry is a directory or a file
  with its bytes. Symbolic links are not modelled.
\<close>

type_synonym path = "string list"

datatype kind = D | F string

type_synonym table = "(path \<times> kind) list"

text \<open>
  A library call that can fail for a reason outside the program (permissions, a full
  disk, the network) is named by a \<open>call\<close>; the environment says which calls fail.
\<close>

datatype call =
    Listdir path
  | Rmtree path
  | Remove path
  | Copytree path path
  | Copy2 path path
  | Makedirs path
  | Mkdtemp path
  | Mkdir path
  | Open path
  | Write path nat
  | ZipOpen path

text \<open>
  Every exception of the program but \<open>SystemExit\<close> (raised by \<^verbatim>\<open>exit(1)\<close>) is a
  subclass of \<^verbatim>\<open>Exception\<close>.
\<close>

datatype exn =
    OSError call
  | HTTPError
  | ConnectionError
  | BadZipFile
  | ValueError
  | SystemExit nat

fun is_Exception :: "exn \<Rightarrow> bool" where
  "is_Exception (SystemExit _) = False"
| "is_Exception _ = True"

text \<open>One constructor for each \<^verbatim>\<open>print\<close> of the program.\<close>

datatype msg =
    MsgBanner
  | MsgInvalidSelection
  | MsgMenu
  | MsgSkipBackup
  | MsgCreatingBackup path
  | MsgBackupComplete
  | MsgCreatingFolder
  | MsgClearing
  | MsgWarnRemove path exn
  | MsgFolderCleared
  | MsgDownloading string
  | MsgProgress nat nat nat
  | MsgDownloaded nat nat
  | MsgDownloadComplete
  | MsgExtracting
  | MsgExtracted path
  | MsgWarnRemoveExisting path exn
  | MsgCopiedPack string
  | MsgCopiedFile string
  | MsgSkipped string
  | MsgTarget path
  | MsgCreatingTarget
  | MsgClearingPatched
  | MsgCleared
  | MsgBackupLocated path
  | MsgInvalidPatch
  | MsgApplying string
  | MsgAppliedCount nat
  | MsgBackupAvailable path
  | MsgSuccess
  | MsgError exn
  | MsgRestore path

text \<open>
  The trace records, in the order of execution, every call that changes the file system
  (with \<open>True\<close> when it returned and \<open>False\<close> when it raised) and every line printed.
\<close>

datatype event = Ev call bool | Out msg

record world =
  tab :: table
  trace :: "event list"

text \<open>
  The answer of the server to \<^verbatim>\<open>requests.get(url, stream=True)\<close>: whether the status
  is a success, the \<^verbatim>\<open>content-length\<close> header when there is one, the chunks that
  \<^verbatim>\<open>iter_content\<close> yields, and whether the stream breaks after them.
\<close>

record response =
  status_ok :: bool
  content_length :: "string option"
  chunks :: "string list"
  broken :: bool

text \<open>
  The environment of one run: which calls fail; what a failed \<^verbatim>\<open>shutil.rmtree\<close> leaves
  and what a failed \<^verbatim>\<open>shutil.copytree\<close> had already copied; the clock; the values of
  \<^verbatim>\<open>%localappdata%\<close> and \<^verbatim>\<open>%temp%\<close>; the directory and the random suffix that
  \<^verbatim>\<open>tempfile.mkdtemp\<close> uses; the server; and the archive decoder, which gives the
  members of an archive (their names split at the separators) or nothing for bytes that
  are not an archive.
\<close>

record env =
  fails :: "call \<Rightarrow> bool"
  leftover :: "path \<Rightarrow> bool"
  partial :: "path \<Rightarrow> bool"
  stamp :: string
  localappdata :: path
  temp :: path
  gettempdir :: path
  rand :: string
  http :: "string \<Rightarrow> response option"
  unzip :: "string \<Rightarrow> (path \<times> kind) list option"

subsection \<open>Actions: state passing with exceptions\<close>

type_synonym 'a act = "world \<Rightarrow> (exn + 'a) \<times> world"

definition ret :: "'a \<Rightarrow> 'a act" where
  "ret x = (\<lambda>w. (Inr x, w))"

definition raise :: "exn \<Rightarrow> 'a act" where
  "raise e = (\<lambda>w. (Inl e, w))"

definition bnd :: "'a act \<Rightarrow> ('a \<Rightarrow> 'b act) \<Rightarrow> 'b act" where
  "bnd m f = (\<lambda>w. case m w of (Inl e, w') \<Rightarrow> (Inl e, w') | (Inr x, w') \<Rightarrow> f x w')"

text \<open>\<^verbatim>\<open>try: m except Exception as e: h(e)\<close>\<close>

definition try_except :: "'a act \<Rightarrow> (exn \<Rightarrow> 'a act) \<Rightarrow> 'a act" where
  "try_except m h =
     (\<lambda>w. case m w of
        (Inl e, w') \<Rightarrow> if is_Exception e then h e w' else (Inl e, w')
      | (Inr x, w') \<Rightarrow> (Inr x, w'))"

text \<open>\<^verbatim>\<open>try: m finally: c\<close>\<close>

definition try_finally :: "'a act \<Rightarrow> unit act \<Rightarrow> 'a act" where
  "try_finally m c =
     (\<lambda>w. case m w of
        (r, w') \<Rightarrow> (case c w' of (Inl e, w'') \<Rightarrow> (Inl e, w'') | (Inr _, w'') \<Rightarrow> (r, w'')))"

definition logev :: "event \<Rightarrow> world \<Rightarrow> world" where
  "logev ev w = w\<lparr>trace := trace w @ [ev]\<rparr>"

definition say :: "msg \<Rightarrow> unit act" where
  "say m = (\<lambda>w. (Inr (), logev (Out m) w))"

subsection \<open>The library calls\<close>

definition join :: "path \<Rightarrow> string \<Rightarrow> path" where
  "join p name = p @ [name]"

definition path_exists :: "table \<Rightarrow> path \<Rightarrow> bool" where
  "path_exists t p = (map_of t p \<noteq> None)"

definition path_isdir :: "table \<Rightarrow> path \<Rightarrow> bool" where
  "path_isdir t p = (map_of t p = Some D)"

definition listdir_names :: "table \<Rightarrow> path \<Rightarrow> string list" where
  "listdir_names t p = map (last \<circ> fst) (filter (\<lambda>(q, k). q \<noteq> [] \<and> butlast q = p) t)"

text \<open>\<^verbatim>\<open>os.listdir\<close> raises when the path is not a directory or cannot be read.\<close>

definition os_listdir :: "env \<Rightarrow> path \<Rightarrow> string list act" where
  "os_listdir env p =
     (\<lambda>w. if fails env (Listdir p) \<or> \<not> path_isdir (tab w) p
           then (Inl (OSError (Listdir p)), w)
           else (Inr (listdir_names (tab w) p), w))"

text \<open>
  \<^verbatim>\<open>os.makedirs(p, exist_ok=True)\<close> creates \<open>p\<close> and each missing ancestor; it raises
  when a component of \<open>p\<close> is a file.
\<close>

definition missing_dirs :: "table \<Rightarrow> path \<Rightarrow> table" where
  "missing_dirs t p = map (\<lambda>q. (q, D)) (filter (\<lambda>q. map_of t q = None) (tl (prefixes p)))"

definition blocked :: "table \<Rightarrow> path \<Rightarrow> bool" where
  "blocked t p = list_ex (\<lambda>q. case map_of t q of Some (F c) \<Rightarrow> True | _ \<Rightarrow> False) (tl (prefixes p))"

definition os_makedirs :: "env \<Rightarrow> path \<Rightarrow> unit act" where
  "os_makedirs env p =
     (\<lambda>w. if fails env (Makedirs p) \<or> p = [] \<or> blocked (tab w) p
           then (Inl (OSError (Makedirs p)), logev (Ev (Makedirs p) False) w)
           else (Inr (), logev (Ev (Makedirs p) True) (w\<lparr>tab := tab w @ missing_dirs (tab w) p\<rparr>)))"

text \<open>
  \<^verbatim>\<open>shutil.rmtree(p)\<close> removes \<open>p\<close> and everything below it. When it fails, \<open>p\<close> itself
  is still there, and below it whatever the environment says was not yet deleted.
\<close>

definition shutil_rmtree :: "env \<Rightarrow> path \<Rightarrow> unit act" where
  "shutil_rmtree env p =
     (\<lambda>w. if \<not> path_isdir (tab w) p
           then (Inl (OSError (Rmtree p)), logev (Ev (Rmtree p) False) w)
           else if fails env (Rmtree p)
           then (Inl (OSError (Rmtree p)),
                 logev (Ev (Rmtree p) False)
                   (w\<lparr>tab := filter (\<lambda>(q, k). \<not> strict_prefix p q \<or> leftover env q) (tab w)\<rparr>))
           else (Inr (),
                 logev (Ev (Rmtree p) True) (w\<lparr>tab := filter (\<lambda>(q, k). \<not> prefix p q) (tab w)\<rparr>)))"

text \<open>\<^verbatim>\<open>os.remove(p)\<close> removes the file \<open>p\<close>; it raises on a directory or a missing path.\<close>

definition os_remove :: "env \<Rightarrow> path \<Rightarrow> unit act" where
  "os_remove env p =
     (\<lambda>w. if fails env (Remove p) \<or> map_of (tab w) p = None \<or> path_isdir (tab w) p
           then (Inl (OSError (Remove p)), logev (Ev (Remove p) False) w)
           else (Inr (), logev (Ev (Remove p) True) (w\<lparr>tab := filter (\<lambda>(q, k). q \<noteq> p) (tab w)\<rparr>)))"

text \<open>
  \<^verbatim>\<open>shutil.rmtree(p, ignore_errors=True)\<close> deletes what it can and never raises.
\<close>

definition rmtree_ignore_errors :: "env \<Rightarrow> path \<Rightarrow> unit act" where
  "rmtree_ignore_errors env p = (\<lambda>w. (Inr (), snd (shutil_rmtree env p w)))"

text \<open>
  \<^verbatim>\<open>shutil.copytree(src, dst)\<close> makes \<open>dst\<close> (and its missing ancestors) and copies
  everything below \<open>src\<close>; it raises when \<open>src\<close> is not a directory or \<open>dst\<close> exists.
  When it fails on the way, the part that the environment says was already copied stays.
\<close>

definition copied_entries :: "table \<Rightarrow> path \<Rightarrow> path \<Rightarrow> table" where
  "copied_entries t src dst =
     missing_dirs t dst @
     map (\<lambda>(q, k). (dst @ drop (length src) q, k)) (filter (\<lambda>(q, k). strict_prefix src q) t)"

definition shutil_copytree :: "env \<Rightarrow> path \<Rightarrow> path \<Rightarrow> unit act" where
  "shutil_copytree env src dst =
     (\<lambda>w. if \<not> path_isdir (tab w) src \<or> path_exists (tab w) dst \<or> dst = [] \<or> blocked (tab w) dst
           then (Inl (OSError (Copytree src dst)), logev (Ev (Copytree src dst) False) w)
           else if fails env (Copytree src dst)
           then (Inl (OSError (Copytree src dst)),
                 logev (Ev (Copytree src dst) False)
                   (w\<lparr>tab := tab w @ filter (\<lambda>(q, k). partial env q) (copied_entries (tab w) src dst)\<rparr>))
           else (Inr (),
                 logev (Ev (Copytree src dst) True)
                   (w\<lparr>tab := tab w @ copied_entries (tab w) src dst\<rparr>)))"

text \<open>
  A new entry needs its parent directory; a path of one component is relative to the
  current directory, which exists.
\<close>

definition parent_ok :: "table \<Rightarrow> path \<Rightarrow> bool" where
  "parent_ok t p = (butlast p = [] \<or> path_isdir t (butlast p))"

text \<open>
  \<^verbatim>\<open>shutil.copy2(src, dst)\<close> copies the file \<open>src\<close> to \<open>dst\<close>, or into \<open>dst\<close> under
  the name of \<open>src\<close> when \<open>dst\<close> is a directory, replacing a file that is there. A
  failed copy is taken to leave nothing behind.
\<close>

definition shutil_copy2 :: "env \<Rightarrow> path \<Rightarrow> path \<Rightarrow> unit act" where
  "shutil_copy2 env src dst =
     (\<lambda>w. let real = (if path_isdir (tab w) dst then join dst (last src) else dst) in
           case map_of (tab w) src of
             Some (F c) \<Rightarrow>
               if fails env (Copy2 src dst) \<or> path_isdir (tab w) real \<or> \<not> parent_ok (tab w) real
               then (Inl (OSError (Copy2 src dst)), logev (Ev (Copy2 src dst) False) w)
               else (Inr (),
                     logev (Ev (Copy2 src dst) True) (w\<lparr>tab := AList.update real (F c) (tab w)\<rparr>))
           | _ \<Rightarrow> (Inl (OSError (Copy2 src dst)), logev (Ev (Copy2 src dst) False) w))"

text \<open>
  \<^verbatim>\<open>tempfile.mkdtemp(prefix="patcher_")\<close> makes a new directory in the temporary
  directory, under a name that is not in use.
\<close>

definition tempfile_mkdtemp :: "env \<Rightarrow> path act" where
  "tempfile_mkdtemp env =
     (\<lambda>w. let tmpdir = join (gettempdir env) (''patcher_'' @ rand env) in
           if fails env (Mkdtemp tmpdir) \<or> path_exists (tab w) tmpdir
              \<or> \<not> path_isdir (tab w) (gettempdir env)
           then (Inl (OSError (Mkdtemp tmpdir)), logev (Ev (Mkdtemp tmpdir) False) w)
           else (Inr tmpdir, logev (Ev (Mkdtemp tmpdir) True) (w\<lparr>tab := tab w @ [(tmpdir, D)]\<rparr>)))"

text \<open>\<^verbatim>\<open>os.mkdir(p)\<close> makes the directory \<open>p\<close>; it raises when \<open>p\<close> exists.\<close>

definition os_mkdir :: "env \<Rightarrow> path \<Rightarrow> unit act" where
  "os_mkdir env p =
     (\<lambda>w. if fails env (Mkdir p) \<or> path_exists (tab w) p \<or> \<not> parent_ok (tab w) p
           then (Inl (OSError (Mkdir p)), logev (Ev (Mkdir p) False) w)
           else (Inr (), logev (Ev (Mkdir p) True) (w\<lparr>tab := tab w @ [(p, D)]\<rparr>)))"

text \<open>
  \<^verbatim>\<open>open(p, "wb")\<close> creates the file \<open>p\<close> or empties it; \<^verbatim>\<open>f.write(chunk)\<close> appends
  to it. The number in \<open>Write p n\<close> is the count of bytes written before.
\<close>

definition open_wb :: "env \<Rightarrow> path \<Rightarrow> unit act" where
  "open_wb env p =
     (\<lambda>w. if fails env (Open p) \<or> path_isdir (tab w) p \<or> \<not> parent_ok (tab w) p
           then (Inl (OSError (Open p)), logev (Ev (Open p) False) w)
           else (Inr (), logev (Ev (Open p) True) (w\<lparr>tab := AList.update p (F []) (tab w)\<rparr>)))"

definition file_write :: "env \<Rightarrow> path \<Rightarrow> nat \<Rightarrow> string \<Rightarrow> unit act" where
  "file_write env p n chunk =
     (\<lambda>w. case map_of (tab w) p of
             Some (F c) \<Rightarrow>
               if fails env (Write p n)
               then (Inl (OSError (Write p n)), logev (Ev (Write p n) False) w)
               else (Inr (),
                     logev (Ev (Write p n) True) (w\<lparr>tab := AList.update p (F (c @ chunk)) (tab w)\<rparr>))
           | _ \<Rightarrow> (Inl (OSError (Write p n)), logev (Ev (Write p n) False) w))"

text \<open>
  \<^verbatim>\<open>requests.get(url, stream=True)\<close> raises when there is no connection;
  \<^verbatim>\<open>r.raise_for_status()\<close> raises on a status that is not a success.
\<close>

definition requests_get :: "env \<Rightarrow> string \<Rightarrow> response act" where
  "requests_get env url = (case http env url of None \<Rightarrow> raise ConnectionError | Some r \<Rightarrow> ret r)"

definition raise_for_status :: "response \<Rightarrow> unit act" where
  "raise_for_status r = (if status_ok r then ret () else raise HTTPError)"

text \<open>
  Header values are Latin-1 text. \<^verbatim>\<open>str.isdigit\<close> holds of a non-empty string of
  digits, among them the superscripts \<^verbatim>\<open>\xb2\<close>, \<^verbatim>\<open>\xb3\<close> and \<^verbatim>\<open>\xb9\<close>, on
  which \<^verbatim>\<open>int\<close> raises \<^verbatim>\<open>ValueError\<close>, as it does on a string of more than
  4300 digits.
\<close>

definition ascii_digit :: "char \<Rightarrow> bool" where
  "ascii_digit c = (48 \<le> (of_char c :: nat) \<and> (of_char c :: nat) \<le> 57)"

definition py_isdigit :: "string \<Rightarrow> bool" where
  "py_isdigit s =
     (s \<noteq> [] \<and> list_all (\<lambda>c. ascii_digit c \<or> (of_char c :: nat) \<in> {178, 179, 185}) s)"

definition py_int :: "string \<Rightarrow> nat option" where
  "py_int s =
     (if list_all ascii_digit s \<and> length s \<le> 4300
      then Some (foldl (\<lambda>a c. 10 * a + (of_char c - 48)) 0 s) else None)"

text \<open>
  \<^verbatim>\<open>zipfile.ZipFile(zip_path, "r")\<close> reads the archive; \<^verbatim>\<open>extractall\<close> extracts the
  members in their order. For each member CPython drops the empty, \<^verbatim>\<open>.\<close> and \<^verbatim>\<open>..\<close>
  components of its name, joins the rest to the destination, makes the missing upper
  directories, and then makes the directory or writes the file.
\<close>

definition zipfile_open :: "env \<Rightarrow> path \<Rightarrow> (path \<times> kind) list act" where
  "zipfile_open env zip_path =
     (\<lambda>w. case map_of (tab w) zip_path of
             Some (F c) \<Rightarrow>
               if fails env (ZipOpen zip_path) then (Inl (OSError (ZipOpen zip_path)), w)
               else (case unzip env c of None \<Rightarrow> (Inl BadZipFile, w) | Some members \<Rightarrow> (Inr members, w))
           | _ \<Rightarrow> (Inl (OSError (ZipOpen zip_path)), w))"

definition sanitize :: "path \<Rightarrow> path" where
  "sanitize name = filter (\<lambda>x. x \<noteq> [] \<and> x \<noteq> ''.'' \<and> x \<noteq> ''..'') name"

definition write_member :: "env \<Rightarrow> path \<Rightarrow> string \<Rightarrow> unit act" where
  "write_member env p c =
     bnd (open_wb env p) (\<lambda>_. if c = [] then ret () else file_write env p 0 c)"

definition extract_member :: "env \<Rightarrow> path \<Rightarrow> path \<times> kind \<Rightarrow> unit act" where
  "extract_member env dest member =
     (let arcname = sanitize (fst member);
          targetpath = dest @ arcname;
          upperdirs = butlast targetpath
      in if arcname = [] \<and> snd member \<noteq> D then raise ValueError
         else bnd (\<lambda>w. if upperdirs \<noteq> [] \<and> \<not> path_exists (tab w) upperdirs
                       then os_makedirs env upperdirs w else ret () w) (\<lambda>_.
              case snd member of
                D \<Rightarrow> (\<lambda>w. if \<not> path_isdir (tab w) targetpath
                          then os_mkdir env targetpath w else ret () w)
              | F c \<Rightarrow> write_member env targetpath c))"

primrec extractall :: "env \<Rightarrow> path \<Rightarrow> (path \<times> kind) list \<Rightarrow> unit act" where
  "extractall env dest [] = ret ()"
| "extractall env dest (member # rest) =
     bnd (extract_member env dest member) (\<lambda>_. extractall env dest rest)"

text \<open>
  \<^verbatim>\<open>input(...).strip()\<close> removes the white space at both ends of the line.
\<close>

definition is_space :: "char \<Rightarrow> bool" where
  "is_space c = ((of_char c :: nat) \<in> {9, 10, 11, 12, 13, 28, 29, 30, 31, 32, 133, 160})"

definition py_strip :: "string \<Rightarrow> string" where
  "py_strip s = rev (dropWhile is_space (rev (dropWhile is_space s)))"

section \<open>Configuration\<close>

text \<open>The catalogue \<^verbatim>\<open>PATCHES\<close>: the name and the URL of each patch.\<close>

definition PATCHES :: "(string \<times> string \<times> string) list" where
  "PATCHES =
     [(''1'', (''Java Animations Fix + Debloat (removes some lobby cosmetics functionality)'',
              ''https://github.com/alcfv/patch-file-host/releases/download/V1/Java.Anims.Fix.+.Debloat.zip'')),
      (''2'', (''Java Animations Armor Overlay Fix'',
              ''https://github.com/alcfv/patch-file-host/releases/download/V1/Java.Anims.Armor.Fix.zip'')),
      (''3'', (''Java Animations Armor Overlay + Running Animation Fix (may hide lobby costumes)'',
              ''https://github.com/alcfv/patch-file-host/releases/download/V1/Java.Anims.Armor.Run.Fix.zip''))]"

text \<open>\<^verbatim>\<open>expand(PATH_UWP)\<close> and \<^verbatim>\<open>expand(PATH_GDK)\<close>, split at the separators.\<close>

definition PATH_UWP :: "env \<Rightarrow> path" where
  "PATH_UWP env =
     localappdata env @
     [''Packages'', ''Microsoft.MinecraftUWP_8wekyb3d8bbwe'', ''LocalCache'', ''minecraftpe'',
      ''packcache'', ''resource'']"

definition PATH_GDK :: "env \<Rightarrow> path" where
  "PATH_GDK env = temp env @ [''minecraftpe'', ''packcache'', ''resource'']"

definition now_stamp :: "env \<Rightarrow> string" where
  "now_stamp env = stamp env"

section \<open>The prompts\<close>

definition prompt_version :: "env \<Rightarrow> string \<Rightarrow> path act" where
  "prompt_version env line =
     bnd (say MsgBanner) (\<lambda>_.
     let v = py_strip line in
     if v = ''1'' then ret (PATH_UWP env)
     else if v = ''2'' then ret (PATH_GDK env)
     else bnd (say MsgInvalidSelection) (\<lambda>_. raise (SystemExit 1)))"

definition prompt_action :: "string \<Rightarrow> string act" where
  "prompt_action line =
     bnd (say MsgMenu) (\<lambda>_.
     let choice = py_strip line in
     if choice \<in> set [''1'', ''2'', ''3'', ''4''] then ret choice
     else bnd (say MsgInvalidSelection) (\<lambda>_. raise (SystemExit 1)))"

section \<open>\<^verbatim>\<open>make_backup\<close>\<close>

text \<open>
  On a path given by its components, \<^verbatim>\<open>folder.rstrip("/\\")\<close> changes nothing,
  \<^verbatim>\<open>os.path.dirname\<close> drops the last component and \<^verbatim>\<open>os.path.basename\<close> is the last
  component.
\<close>

definition dirname :: "path \<Rightarrow> path" where
  "dirname p = butlast p"

definition basename :: "path \<Rightarrow> string" where
  "basename p = (if p = [] then [] else last p)"

definition make_backup :: "env \<Rightarrow> path \<Rightarrow> path option act" where
  "make_backup env folder =
     (\<lambda>w. if \<not> path_exists (tab w) folder
           then bnd (say MsgSkipBackup) (\<lambda>_. ret None) w
           else (let parent = dirname folder;
                     base = basename folder;
                     backup_name = base @ ''_backup_'' @ now_stamp env;
                     backup_path = join parent backup_name
                 in bnd (say (MsgCreatingBackup backup_path)) (\<lambda>_.
                    bnd (shutil_copytree env folder backup_path) (\<lambda>_.
                    bnd (say MsgBackupComplete) (\<lambda>_.
                    ret (Some backup_path))))) w)"

section \<open>\<^verbatim>\<open>clear_folder_contents\<close>\<close>

text \<open>
  \<^verbatim>\<open>
  for entry in os.listdir(folder):
      path = os.path.join(folder, entry)
      try:
          if os.path.isdir(path): shutil.rmtree(path)
          else: os.remove(path)
      except Exception as e:
          print("  WARNING: failed to remove", path, "->", e)
  \<close>
\<close>

definition remove_entry :: "env \<Rightarrow> path \<Rightarrow> unit act" where
  "remove_entry env p =
     try_except
       (\<lambda>w. if path_isdir (tab w) p then shutil_rmtree env p w else os_remove env p w)
       (\<lambda>e. say (MsgWarnRemove p e))"

primrec clear_entries :: "env \<Rightarrow> path \<Rightarrow> string list \<Rightarrow> unit act" where
  "clear_entries env folder [] = ret ()"
| "clear_entries env folder (entry # rest) =
     bnd (remove_entry env (join folder entry)) (\<lambda>_. clear_entries env folder rest)"

definition clear_folder_contents :: "env \<Rightarrow> path \<Rightarrow> unit act" where
  "clear_folder_contents env folder =
     (\<lambda>w. if \<not> path_exists (tab w) folder
           then bnd (say MsgCreatingFolder) (\<lambda>_. os_makedirs env folder) w
           else bnd (say MsgClearing) (\<lambda>_.
                bnd (os_listdir env folder) (\<lambda>entries.
                bnd (clear_entries env folder entries) (\<lambda>_.
                say MsgFolderCleared))) w)"

section \<open>\<^verbatim>\<open>download_zip\<close>\<close>

text \<open>\<^verbatim>\<open>total\<close> is \<^verbatim>\<open>None\<close> or a number; \<^verbatim>\<open>if total:\<close> holds of a number that is not 0.\<close>

definition say_total :: "nat option \<Rightarrow> (nat \<Rightarrow> msg) \<Rightarrow> msg option \<Rightarrow> unit act" where
  "say_total tot m other =
     (case tot of
        Some n \<Rightarrow> if n \<noteq> 0 then say (m n) else (case other of None \<Rightarrow> ret () | Some m2 \<Rightarrow> say m2)
      | None \<Rightarrow> (case other of None \<Rightarrow> ret () | Some m2 \<Rightarrow> say m2))"

definition parse_total :: "response \<Rightarrow> nat option act" where
  "parse_total r =
     (case content_length r of
        None \<Rightarrow> ret None
      | Some tot \<Rightarrow>
          if tot \<noteq> [] \<and> py_isdigit tot
          then (case py_int tot of None \<Rightarrow> raise ValueError | Some n \<Rightarrow> ret (Some n))
          else ret None)"

text \<open>
  \<^verbatim>\<open>
  for chunk in r.iter_content(chunk_size=8192):
      if not chunk: continue
      f.write(chunk)
      downloaded += len(chunk)
      if total:
          pct = downloaded * 100 // total
          print(f"\r  downloaded {downloaded}/{total} bytes ({pct}%)", end="", flush=True)
  \<close>
\<close>

primrec write_chunks :: "env \<Rightarrow> path \<Rightarrow> nat option \<Rightarrow> string list \<Rightarrow> nat \<Rightarrow> nat act" where
  "write_chunks env dest_path tot [] = (\<lambda>downloaded. ret downloaded)"
| "write_chunks env dest_path tot (chunk # rest) =
     (\<lambda>downloaded.
        if chunk = [] then write_chunks env dest_path tot rest downloaded
        else bnd (file_write env dest_path downloaded chunk) (\<lambda>_.
             bnd (say_total tot
                    (\<lambda>n. MsgProgress (downloaded + length chunk) n
                           ((downloaded + length chunk) * 100 div n)) None) (\<lambda>_.
             write_chunks env dest_path tot rest (downloaded + length chunk))))"

definition download_zip :: "env \<Rightarrow> string \<Rightarrow> path \<Rightarrow> path act" where
  "download_zip env url dest_path =
     bnd (say (MsgDownloading url)) (\<lambda>_.
     bnd (requests_get env url) (\<lambda>r.
     bnd (raise_for_status r) (\<lambda>_.
     bnd (parse_total r) (\<lambda>tot.
     bnd (open_wb env dest_path) (\<lambda>_.
     bnd (write_chunks env dest_path tot (chunks r) 0) (\<lambda>downloaded.
     bnd (if broken r then raise ConnectionError else ret ()) (\<lambda>_.
     bnd (say_total tot (MsgDownloaded downloaded) (Some MsgDownloadComplete)) (\<lambda>_.
     ret dest_path))))))))"

section \<open>\<^verbatim>\<open>extract_zip\<close>\<close>

definition extract_zip :: "env \<Rightarrow> path \<Rightarrow> path \<Rightarrow> path act" where
  "extract_zip env zip_path dest_dir =
     bnd (say MsgExtracting) (\<lambda>_.
     bnd (zipfile_open env zip_path) (\<lambda>z.
     bnd (extractall env dest_dir z) (\<lambda>_.
     bnd (say (MsgExtracted dest_dir)) (\<lambda>_.
     ret dest_dir))))"

section \<open>\<^verbatim>\<open>copy_top_level_folders\<close>\<close>

text \<open>
  The removal of an entry that is in the way is guarded by \<^verbatim>\<open>try\<close>, and so is the copy
  of a file; the copy of a directory is not.
\<close>

definition remove_existing :: "env \<Rightarrow> path \<Rightarrow> unit act" where
  "remove_existing env dst =
     (\<lambda>w. if path_exists (tab w) dst
           then try_except
                  (\<lambda>w. if path_isdir (tab w) dst then shutil_rmtree env dst w
                        else os_remove env dst w)
                  (\<lambda>e. say (MsgWarnRemoveExisting dst e)) w
           else ret () w)"

primrec copy_entries :: "env \<Rightarrow> path \<Rightarrow> path \<Rightarrow> string list \<Rightarrow> string list \<Rightarrow> string list act" where
  "copy_entries env src_root dst_root [] = (\<lambda>applied. ret applied)"
| "copy_entries env src_root dst_root (name # rest) =
     (\<lambda>applied.
        let src = join src_root name; dst = join dst_root name in
        (\<lambda>w. if path_isdir (tab w) src
              then bnd (remove_existing env dst) (\<lambda>_.
                   bnd (shutil_copytree env src dst) (\<lambda>_.
                   bnd (say (MsgCopiedPack name)) (\<lambda>_.
                   copy_entries env src_root dst_root rest (applied @ [name])))) w
              else bnd (try_except
                          (bnd (shutil_copy2 env src dst) (\<lambda>_. say (MsgCopiedFile name)))
                          (\<lambda>e. say (MsgSkipped name))) (\<lambda>_.
                   copy_entries env src_root dst_root rest applied) w))"

definition copy_top_level_folders :: "env \<Rightarrow> path \<Rightarrow> path \<Rightarrow> string list act" where
  "copy_top_level_folders env src_root dst_root =
     bnd (os_listdir env src_root) (\<lambda>names. copy_entries env src_root dst_root names [])"

section \<open>\<^verbatim>\<open>main\<close>\<close>

definition say_backup :: "path option \<Rightarrow> (path \<Rightarrow> msg) \<Rightarrow> unit act" where
  "say_backup backup m = (case backup of None \<Rightarrow> ret () | Some b \<Rightarrow> say (m b))"

text \<open>The branch \<^verbatim>\<open>if action == "4"\<close>.\<close>

definition clear_action :: "env \<Rightarrow> path \<Rightarrow> unit act" where
  "clear_action env target =
     bnd (say MsgClearingPatched) (\<lambda>_.
     bnd (make_backup env target) (\<lambda>backup.
     bnd (clear_folder_contents env target) (\<lambda>_.
     bnd (say MsgCleared) (\<lambda>_.
     say_backup backup MsgBackupLocated))))"

text \<open>The body of the \<^verbatim>\<open>try\<close> statement.\<close>

definition apply_steps :: "env \<Rightarrow> path \<Rightarrow> string \<Rightarrow> path option \<Rightarrow> path \<Rightarrow> unit act" where
  "apply_steps env target url backup tmpdir =
     (let zip_path = join tmpdir ''patch.zip'' in
      bnd (download_zip env url zip_path) (\<lambda>_.
      let extract_dir = join tmpdir ''extracted'' in
      bnd (extract_zip env zip_path extract_dir) (\<lambda>_.
      bnd (copy_top_level_folders env extract_dir target) (\<lambda>applied.
      bnd (say (MsgAppliedCount (length applied))) (\<lambda>_.
      bnd (say_backup backup MsgBackupAvailable) (\<lambda>_.
      say MsgSuccess))))))"

text \<open>The rest of \<^verbatim>\<open>main\<close>, for a patch of the catalogue.\<close>

definition apply_action :: "env \<Rightarrow> path \<Rightarrow> string \<times> string \<Rightarrow> unit act" where
  "apply_action env target patch =
     bnd (say (MsgApplying (fst patch))) (\<lambda>_.
     bnd (make_backup env target) (\<lambda>backup.
     bnd (clear_folder_contents env target) (\<lambda>_.
     bnd (tempfile_mkdtemp env) (\<lambda>tmpdir.
     try_finally
       (try_except
          (apply_steps env target (snd patch) backup tmpdir)
          (\<lambda>e. bnd (say (MsgError e)) (\<lambda>_. say_backup backup MsgRestore)))
       (rmtree_ignore_errors env tmpdir)))))"

text \<open>
  \<^verbatim>\<open>
  if not os.path.exists(target):
      print("\nTarget folder does not exist. Creating it now.")
      os.makedirs(target, exist_ok=True)
  \<close>
\<close>

definition create_missing :: "env \<Rightarrow> path \<Rightarrow> unit act" where
  "create_missing env target =
     (\<lambda>w. if \<not> path_exists (tab w) target
           then bnd (say MsgCreatingTarget) (\<lambda>_. os_makedirs env target) w
           else ret () w)"

text \<open>
  \<open>main\<close> gets the two lines that the operator types. The last \<^verbatim>\<open>input\<close>, which waits
  for ENTER, has no effect.
\<close>

definition main :: "env \<Rightarrow> string \<Rightarrow> string \<Rightarrow> unit act" where
  "main env line1 line2 =
     bnd (prompt_version env line1) (\<lambda>target.
     bnd (say (MsgTarget target)) (\<lambda>_.
     bnd (prompt_action line2) (\<lambda>action.
     bnd (create_missing env target) (\<lambda>_.
     if action = ''4'' then clear_action env target
     else (case map_of PATCHES action of
             None \<Rightarrow> say MsgInvalidPatch
           | Some patch \<Rightarrow> apply_action env target patch)))))"

section \<open>Notions used in the statements\<close>

text \<open>
  A child of the folder can be removed when the call that \<^verbatim>\<open>clear_folder_contents\<close>
  makes for it (\<^verbatim>\<open>shutil.rmtree\<close> for a directory, \<^verbatim>\<open>os.remove\<close> otherwise) does not
  fail.
\<close>

definition removable :: "env \<Rightarrow> table \<Rightarrow> path \<Rightarrow> bool" where
  "removable env t p =
     (if path_isdir t p then \<not> fails env (Rmtree p) else \<not> fails env (Remove p))"

text \<open>
  The total that \<^verbatim>\<open>download_zip\<close> reports progress against: the number in the
  \<^verbatim>\<open>content-length\<close> header, when the header is there, is a string of decimal digits
  and the number is not 0.
\<close>

definition header_total :: "response \<Rightarrow> nat option" where
  "header_total r =
     (case content_length r of
        None \<Rightarrow> None
      | Some s \<Rightarrow>
          if py_isdigit s
          then (case py_int s of Some n \<Rightarrow> if n \<noteq> 0 then Some n else None | None \<Rightarrow> None)
          else None)"

definition pos_total :: "nat option \<Rightarrow> nat option" where
  "pos_total tot = (case tot of Some n \<Rightarrow> if n \<noteq> 0 then Some n else None | None \<Rightarrow> None)"

text \<open>
  What the specification asks of the download of the chunks \<open>cs\<close>: each chunk is
  written, and after each one a progress line gives the bytes so far, the total and the
  percentage. Without a total there are only the writes.
\<close>

definition bytes_before :: "string list \<Rightarrow> nat \<Rightarrow> nat" where
  "bytes_before cs i = sum_list (map length (take i cs))"

definition chunk_lines :: "path \<Rightarrow> nat option \<Rightarrow> nat \<Rightarrow> string list \<Rightarrow> event list" where
  "chunk_lines dest tot d0 cs =
     concat (map (\<lambda>i. Ev (Write dest (d0 + bytes_before cs i)) True #
                       (case tot of
                          None \<Rightarrow> []
                        | Some n \<Rightarrow> [Out (MsgProgress (d0 + bytes_before cs (Suc i)) n
                                           ((d0 + bytes_before cs (Suc i)) * 100 div n))]))
                 [0..<length cs])"

text \<open>Two paths are apart when neither is inside the other.\<close>

definition apart :: "path \<Rightarrow> path \<Rightarrow> bool" where
  "apart p q = (\<not> prefix p q \<and> \<not> prefix q p)"

text \<open>
  What the events \<open>evs\<close> of a merge say of the child \<open>n\<close> of the extraction root: a
  directory was copied with \<^verbatim>\<open>shutil.copytree\<close> and reported as a pack; anything else
  was given to \<^verbatim>\<open>shutil.copy2\<close>, and either copied or skipped with a message.
\<close>

definition copied_as :: "path \<Rightarrow> path \<Rightarrow> event list \<Rightarrow> bool \<Rightarrow> string \<Rightarrow> bool" where
  "copied_as src_root dst_root evs isd n =
     (if isd
      then Ev (Copytree (join src_root n) (join dst_root n)) True \<in> set evs \<and>
           Out (MsgCopiedPack n) \<in> set evs
      else Ev (Copy2 (join src_root n) (join dst_root n)) True \<in> set evs \<and>
             Out (MsgCopiedFile n) \<in> set evs \<or>
           Ev (Copy2 (join src_root n) (join dst_root n)) False \<in> set evs \<and>
             Out (MsgSkipped n) \<in> set evs)"

definition handled :: "path \<Rightarrow> path \<Rightarrow> event list \<Rightarrow> string \<Rightarrow> bool" where
  "handled src_root dst_root evs n =
     (Ev (Copytree (join src_root n) (join dst_root n)) True \<in> set evs \<and>
        Out (MsgCopiedPack n) \<in> set evs \<or>
      Ev (Copy2 (join src_root n) (join dst_root n)) True \<in> set evs \<and>
        Out (MsgCopiedFile n) \<in> set evs \<or>
      Ev (Copy2 (join src_root n) (join dst_root n)) False \<in> set evs \<and>
        Out (MsgSkipped n) \<in> set evs)"

text \<open>The events of a run from \<open>w\<close> to \<open>w'\<close>.\<close>

definition news :: "world \<Rightarrow> world \<Rightarrow> event list" where
  "news w w' = drop (length (trace w)) (trace w')"

text \<open>
  The target of a session that gets past the first prompt, the path of its backup, and
  its staging directory.
\<close>

definition chosen :: "env \<Rightarrow> string \<Rightarrow> path" where
  "chosen env line1 = (if py_strip line1 = ''1'' then PATH_UWP env else PATH_GDK env)"

definition backup_path :: "env \<Rightarrow> path \<Rightarrow> path" where
  "backup_path env folder = join (dirname folder) (basename folder @ ''_backup_'' @ now_stamp env)"

definition staging :: "env \<Rightarrow> path" where
  "staging env = join (gettempdir env) (''patcher_'' @ rand env)"

text \<open>
  An event that removes something at or below \<open>t\<close>, whether the call returns or not.
\<close>

fun removal_under :: "path \<Rightarrow> event \<Rightarrow> bool" where
  "removal_under t (Ev (Rmtree q) b) = prefix t q"
| "removal_under t (Ev (Remove q) b) = prefix t q"
| "removal_under t e = False"

text \<open>
  In the events \<open>es\<close>, no removal below \<open>t\<close> comes before the event \<open>bk\<close>.
\<close>

fun backed_up_first :: "event \<Rightarrow> path \<Rightarrow> event list \<Rightarrow> bool" where
  "backed_up_first bk t [] = True"
| "backed_up_first bk t (e # es) = (e = bk \<or> (\<not> removal_under t e \<and> backed_up_first bk t es))"

text \<open>
  An action emits only events of \<open>P\<close>; an action raises only exceptions of \<open>P\<close>.
\<close>

definition emits :: "(event \<Rightarrow> bool) \<Rightarrow> 'a act \<Rightarrow> bool" where
  "emits P m = (\<forall>w. \<exists>evs. trace (snd (m w)) = trace w @ evs \<and> (\<forall>e \<in> set evs. P e))"

definition raises :: "(exn \<Rightarrow> bool) \<Rightarrow> 'a act \<Rightarrow> bool" where
  "raises P m = (\<forall>w e w'. m w = (Inl e, w') \<longrightarrow> P e)"

text \<open>The part of \<open>main\<close> that follows the creation of a missing target.\<close>

definition body :: "env \<Rightarrow> path \<Rightarrow> string \<Rightarrow> unit act" where
  "body env target action =
     (if action = ''4'' then clear_action env target
      else (case map_of PATCHES action of
              None \<Rightarrow> say MsgInvalidPatch
            | Some patch \<Rightarrow> apply_action env target patch))"

text \<open>
  From the table \<open>t\<close> to the table \<open>t'\<close> nothing outside \<open>dest\<close> was changed or
  removed, and nothing outside \<open>dest\<close> was created but missing ancestors of \<open>dest\<close>,
  as directories. An action is confined to \<open>dest\<close> when each of its runs is so.
\<close>

definition outside_kept :: "path \<Rightarrow> table \<Rightarrow> table \<Rightarrow> bool" where
  "outside_kept dest t t' =
     (\<forall>q. \<not> prefix dest q \<longrightarrow>
        map_of t' q = map_of t q \<or>
        (map_of t q = None \<and> strict_prefix q dest \<and> map_of t' q = Some D))"

definition confined :: "path \<Rightarrow> 'a act \<Rightarrow> bool" where
  "confined dest m = (\<forall>w. outside_kept dest (tab w) (tab (snd (m w))))"

text \<open>
  The environment lets every call through: no call fails for a reason of its own.
\<close>

definition nofail :: "env \<Rightarrow> bool" where
  "nofail env = (\<forall>c. \<not> fails env c)"

text \<open>
  A table is tidy when no entry has the empty path and every entry has its parent
  directory (a path of one component is relative to the current directory).
\<close>

definition tidy :: "table \<Rightarrow> bool" where
  "tidy t = list_all (\<lambda>(q, k). q \<noteq> [] \<and> parent_ok t q) t"

text \<open>
  The entries that \<^verbatim>\<open>shutil.copytree\<close> writes below \<open>dst\<close>: those below \<open>src\<close>, moved.
\<close>

definition copies :: "table \<Rightarrow> path \<Rightarrow> path \<Rightarrow> table" where
  "copies t src dst =
     map (\<lambda>(q, k). (dst @ drop (length src) q, k)) (filter (\<lambda>(q, k). strict_prefix src q) t)"

text \<open>An action keeps the property \<open>I\<close> of the table.\<close>

definition keeps :: "(table \<Rightarrow> bool) \<Rightarrow> 'a act \<Rightarrow> bool" where
  "keeps I m = (\<forall>w. I (tab w) \<longrightarrow> I (tab (snd (m w))))"

text \<open>
  In the course of a merge from \<open>src\<close> to \<open>dst\<close>: below \<open>dst\<close>, the children in \<open>S\<close>
  are as they are below \<open>src\<close>, and there is nothing else.
\<close>

definition merged :: "table \<Rightarrow> path \<Rightarrow> path \<Rightarrow> string set \<Rightarrow> bool" where
  "merged t src dst S =
     (\<forall>n rest. map_of t (dst @ n # rest) = (if n \<in> S then map_of t (src @ n # rest) else None))"

text \<open>
  Two tables are alike below \<open>a\<close> and \<open>b\<close> when the first has below \<open>a\<close> what the
  second has below \<open>b\<close>, and \<open>a\<close>, \<open>b\<close> and the paths above them are directories. An
  action simulates another when, from tables that are alike, both return or both raise,
  with results related by \<open>V\<close>, and the tables are alike again.
\<close>

definition sim :: "path \<Rightarrow> path \<Rightarrow> table \<Rightarrow> table \<Rightarrow> bool" where
  "sim a b s t =
     (a \<noteq> [] \<and> b \<noteq> [] \<and> (\<forall>r. map_of s (a @ r) = map_of t (b @ r)) \<and>
      (\<forall>p. prefix p a \<and> p \<noteq> [] \<longrightarrow> map_of s p = Some D) \<and>
      (\<forall>p. prefix p b \<and> p \<noteq> [] \<longrightarrow> map_of t p = Some D))"

definition simulates :: "path \<Rightarrow> path \<Rightarrow> ('x \<Rightarrow> 'y \<Rightarrow> bool) \<Rightarrow> 'x act \<Rightarrow> 'y act \<Rightarrow> bool" where
  "simulates a b V m n =
     (\<forall>w v. sim a b (tab w) (tab v) \<longrightarrow>
        sim a b (tab (snd (m w))) (tab (snd (n v))) \<and>
        (case fst (m w) of
           Inl e \<Rightarrow> isl (fst (n v))
         | Inr x \<Rightarrow> (case fst (n v) of Inl e \<Rightarrow> False | Inr y \<Rightarrow> V x y)))"

section \<open>Examples\<close>

definition members0 :: "(path \<times> kind) list" where
  "members0 =
     [([''packA''], D), ([''packA'', ''m.json''], F ''a''),
      ([''packB'', ''sub'', ''x.png''], F ''b''), ([''readme.txt''], F ''r'')]"

definition resp0 :: response where
  "resp0 = \<lparr>status_ok = True, content_length = Some ''3'', chunks = [''ZI'', [], ''P''],
     broken = False\<rparr>"

definition env0 :: env where
  "env0 = \<lparr>fails = (\<lambda>_. False), leftover = (\<lambda>_. False), partial = (\<lambda>_. False),
     stamp = ''20240101-000000'', localappdata = [''L''], temp = [''T''], gettempdir = [''T''],
     rand = ''abc'', http = (\<lambda>_. Some resp0),
     unzip = (\<lambda>c. if c = ''ZIP'' then Some members0 else None)\<rparr>"

definition res :: path where
  "res = [''T'', ''res'']"



definition tdir :: world where
  "tdir = \<lparr>tab = [([''T''], D)], trace = []\<rparr>"

definition zip0 :: path where
  "zip0 = [''T'', ''patch.zip'']"

definition env_nolen :: env where
  "env_nolen = env0\<lparr>http := (\<lambda>_. Some (resp0\<lparr>content_length := None\<rparr>))\<rparr>"

definition xroot :: path where
  "xroot = [''T'', ''x'']"

definition world2 :: world where
  "world2 = \<lparr>tab = [([''T''], D), (xroot, D), (xroot @ [''packA''], D),
     (xroot @ [''packA'', ''m.json''], F ''a''), (xroot @ [''readme.txt''], F ''r''),
     (res, D)], trace = []\<rparr>"

definition gdk :: path where
  "gdk = [''T'', ''minecraftpe'', ''packcache'', ''resource'']"

definition tmp0 :: path where
  "tmp0 = [''T'', ''patcher_abc'']"

definition env_packB :: env where
  "env_packB = env0\<lparr>fails :=
     (\<lambda>c. c = Copytree (tmp0 @ [''extracted'', ''packB'']) (gdk @ [''packB'']))\<rparr>"

definition world3 :: world where
  "world3 = \<lparr>tab = [([''T''], D), (tmp0, D), (res, D)], trace = []\<rparr>"

definition env_skip :: env where
  "env_skip = env0\<lparr>fails :=
     (\<lambda>c. c = Copy2 (tmp0 @ [''extracted'', ''readme.txt'']) (res @ [''readme.txt'']))\<rparr>"

definition world4 :: world where
  "world4 = \<lparr>tab = [([''T''], D), ([''T'', ''minecraftpe''], D),
     ([''T'', ''minecraftpe'', ''packcache''], D), (gdk, D), (gdk @ [''vanilla''], D),
     (gdk @ [''vanilla'', ''f''], F ''v'')], trace = []\<rparr>"

definition gdk_bk :: path where
  "gdk_bk = [''T'', ''minecraftpe'', ''packcache'', ''resource_backup_20240101-000000'']"

definition env_lock :: env where
  "env_lock = env0\<lparr>fails := (\<lambda>c. c = Rmtree tmp0), leftover := (\<lambda>_. True)\<rparr>"

definition env_bk :: env where
  "env_bk = env0\<lparr>fails := (\<lambda>c. c = Copytree gdk gdk_bk), partial := (\<lambda>_. True)\<rparr>"



definition env_once :: env where
  "env_once = env0\<lparr>fails :=
     (\<lambda>c. c = Copy2 (tmp0 @ [''extracted'', ''readme.txt'']) (gdk @ [''readme.txt'']))\<rparr>"

section \<open>Lemmas on the table\<close>

lemma map_of_filter_key:
  "map_of (filter (\<lambda>(q, k). P q) t) x = (if P x then map_of t x else None)"
  by (induction t) auto

section \<open>Lemmas on \<^verbatim>\<open>clear_folder_contents\<close>\<close>

lemma remove_entry_returns: "\<exists>w'. remove_entry env p w = (Inr (), w')"
  by (simp add: remove_entry_def try_except_def shutil_rmtree_def os_remove_def say_def)

lemma remove_entry_only_deletes:
  "map_of (tab (snd (remove_entry env p w))) q = None \<or>
   map_of (tab (snd (remove_entry env p w))) q = map_of (tab w) q"
  by (simp add: remove_entry_def try_except_def shutil_rmtree_def os_remove_def say_def
      logev_def map_of_filter_key)

lemma remove_entry_removes:
  "removable env (tab w) p \<Longrightarrow> map_of (tab (snd (remove_entry env p w))) p = None"
  by (auto simp add: remove_entry_def try_except_def shutil_rmtree_def os_remove_def say_def
      logev_def map_of_filter_key removable_def path_isdir_def)

lemma clear_entries_returns: "\<exists>w'. clear_entries env folder names w = (Inr (), w')"
proof (induction names arbitrary: w)
  case Nil
  show ?case by (simp add: ret_def)
next
  case (Cons n names)
  obtain w1 where "remove_entry env (join folder n) w = (Inr (), w1)"
    using remove_entry_returns by blast
  then show ?case using Cons.IH [of w1] by (simp add: bnd_def)
qed

lemma clear_entries_only_deletes:
  "map_of (tab (snd (clear_entries env folder names w))) q = None \<or>
   map_of (tab (snd (clear_entries env folder names w))) q = map_of (tab w) q"
proof (induction names arbitrary: w)
  case Nil
  show ?case by (simp add: ret_def)
next
  case (Cons n names)
  obtain w1 where w1: "remove_entry env (join folder n) w = (Inr (), w1)"
    using remove_entry_returns by blast
  have "map_of (tab w1) q = None \<or> map_of (tab w1) q = map_of (tab w) q"
    using remove_entry_only_deletes [of env "join folder n" w q] w1 by simp
  then show ?case using Cons.IH [of w1] w1 by (auto simp add: bnd_def)
qed

lemma clear_entries_removes:
  "n \<in> set names \<Longrightarrow> removable env (tab w) (join folder n) \<Longrightarrow>
   map_of (tab (snd (clear_entries env folder names w))) (join folder n) = None"
proof (induction names arbitrary: w)
  case Nil
  then show ?case by simp
next
  case (Cons m names)
  obtain w1 where w1: "remove_entry env (join folder m) w = (Inr (), w1)"
    using remove_entry_returns by blast
  have step: "clear_entries env folder (m # names) w = clear_entries env folder names w1"
    using w1 by (simp add: bnd_def)
  have keep: "map_of (tab w1) (join folder n) = None \<or>
              map_of (tab w1) (join folder n) = map_of (tab w) (join folder n)"
    using remove_entry_only_deletes [of env "join folder m" w "join folder n"] w1 by simp
  have rest: "map_of (tab (snd (clear_entries env folder names w1))) (join folder n) = None \<or>
              map_of (tab (snd (clear_entries env folder names w1))) (join folder n)
                = map_of (tab w1) (join folder n)"
    by (rule clear_entries_only_deletes)
  show ?case
  proof (cases "map_of (tab w1) (join folder n) = None")
    case True
    then show ?thesis using rest step by auto
  next
    case False
    then have same: "map_of (tab w1) (join folder n) = map_of (tab w) (join folder n)"
      using keep by auto
    have "n \<noteq> m"
    proof
      assume "n = m"
      then have "map_of (tab w1) (join folder n) = None"
        using remove_entry_removes [OF Cons.prems(2)] w1 by simp
      then show False using False by simp
    qed
    then have "n \<in> set names" using Cons.prems(1) by simp
    moreover have "removable env (tab w1) (join folder n)"
      using Cons.prems(2) same by (simp add: removable_def path_isdir_def)
    ultimately show ?thesis using Cons.IH [of w1] step by simp
  qed
qed

section \<open>Lemmas on the actions\<close>

lemma bnd_Inr_E:
  "bnd m f w = (Inr y, w') \<Longrightarrow> \<exists>x w1. m w = (Inr x, w1) \<and> f x w1 = (Inr y, w')"
  by (auto simp add: bnd_def split: prod.splits sum.splits)

section \<open>Lemmas on \<^verbatim>\<open>download_zip\<close>\<close>

lemma chunk_lines_Nil: "chunk_lines dest tot d0 [] = []"
  by (simp add: chunk_lines_def)

lemma chunk_lines_Cons:
  "chunk_lines dest tot d0 (c # cs) =
     Ev (Write dest d0) True #
     (case tot of
        None \<Rightarrow> []
      | Some n \<Rightarrow> [Out (MsgProgress (d0 + length c) n ((d0 + length c) * 100 div n))]) @
     chunk_lines dest tot (d0 + length c) cs"
proof -
  have upt: "[0..<length (c # cs)] = 0 # map Suc [0..<length cs]"
    by (simp add: upt_conv_Cons map_Suc_upt del: upt_Suc)
  show ?thesis
    unfolding chunk_lines_def upt
    by (cases tot) (simp_all add: bytes_before_def comp_def add.assoc)
qed

lemma write_chunks_trace:
  "write_chunks env dest tot cs d w = (Inr d', w') \<Longrightarrow>
   trace w' = trace w @ chunk_lines dest (pos_total tot) d (filter (\<lambda>c. c \<noteq> []) cs) \<and>
   d' = d + sum_list (map length cs)"
proof (induction cs arbitrary: d w)
  case Nil
  then show ?case by (simp add: ret_def chunk_lines_Nil)
next
  case (Cons c cs)
  show ?case
  proof (cases "c = []")
    case True
    then show ?thesis using Cons by simp
  next
    case False
    from Cons.prems False obtain w1 where
      w1: "file_write env dest d c w = (Inr (), w1)"
      by (auto simp add: bnd_def split: prod.splits sum.splits)
    then have t1: "trace w1 = trace w @ [Ev (Write dest d) True]"
      by (auto simp add: file_write_def logev_def split: option.splits kind.splits if_splits)
    define w2 where
      "w2 = snd (say_total tot
                   (\<lambda>n. MsgProgress (d + length c) n ((d + length c) * 100 div n)) None w1)"
    have w2: "say_total tot (\<lambda>n. MsgProgress (d + length c) n ((d + length c) * 100 div n))
                None w1 = (Inr (), w2)"
      by (cases tot) (simp_all add: w2_def say_total_def say_def ret_def)
    have t2: "trace w2 = trace w1 @
                (case pos_total tot of
                   None \<Rightarrow> []
                 | Some n \<Rightarrow> [Out (MsgProgress (d + length c) n ((d + length c) * 100 div n))])"
      by (cases tot) (simp_all add: w2_def say_total_def pos_total_def say_def ret_def logev_def)
    have rest: "write_chunks env dest tot cs (d + length c) w2 = (Inr d', w')"
      using Cons.prems False w1 w2 by (simp add: bnd_def)
    show ?thesis
      using Cons.IH [OF rest] t1 t2 False by (simp add: chunk_lines_Cons)
  qed
qed

lemma parse_total_pos:
  "parse_total r w = (Inr tot, w') \<Longrightarrow> pos_total tot = header_total r \<and> w' = w"
  by (auto simp add: parse_total_def header_total_def pos_total_def ret_def raise_def
      py_isdigit_def split: option.splits if_splits)

section \<open>Lemmas on \<^verbatim>\<open>copy_top_level_folders\<close>\<close>

lemma set_tl_prefixes: "set (tl (prefixes p)) = {q. prefix q p \<and> q \<noteq> []}"
  by (cases p) (auto simp add: prefix_Cons)

lemma missing_dirs_keys:
  "(q, k) \<in> set (missing_dirs t p) \<Longrightarrow> prefix q p \<and> q \<noteq> [] \<and> k = D \<and> map_of t q = None"
  by (auto simp add: missing_dirs_def set_tl_prefixes)

lemma copied_entries_keys:
  "(q, k) \<in> set (copied_entries t src dst) \<Longrightarrow> (prefix q dst \<and> map_of t q = None) \<or> prefix dst q"
  by (auto simp add: copied_entries_def dest: missing_dirs_keys)

lemma map_of_append_first:
  "map_of (t @ adds) q = (case map_of t q of None \<Rightarrow> map_of adds q | Some k \<Rightarrow> Some k)"
  by (simp add: map_add_def split: option.splits)

lemma map_of_None_keys: "(\<And>k. (q, k) \<notin> set t) \<Longrightarrow> map_of t q = None"
  by (metis map_of_SomeD not_Some_eq)

lemma shutil_copytree_frame:
  assumes "\<not> prefix dst q" and "map_of (tab w) q \<noteq> None \<or> \<not> prefix q dst"
  shows "map_of (tab (snd (shutil_copytree env src dst w))) q = map_of (tab w) q"
proof -
  have "map_of (filter (\<lambda>(q, k). P q) (copied_entries (tab w) src dst)) q = None"
    if "map_of (tab w) q = None" for P
    using assms that by (intro map_of_None_keys) (auto dest: copied_entries_keys)
  moreover have "map_of (copied_entries (tab w) src dst) q = None"
    if "map_of (tab w) q = None"
    using assms that by (intro map_of_None_keys) (auto dest: copied_entries_keys)
  ultimately show ?thesis
    by (cases "map_of (tab w) q")
       (auto simp add: shutil_copytree_def logev_def map_add_def split: option.splits)
qed

lemma shutil_rmtree_frame:
  "\<not> prefix p q \<Longrightarrow> map_of (tab (snd (shutil_rmtree env p w))) q = map_of (tab w) q"
  by (auto simp add: shutil_rmtree_def logev_def map_of_filter_key)

lemma os_remove_frame:
  "q \<noteq> p \<Longrightarrow> map_of (tab (snd (os_remove env p w))) q = map_of (tab w) q"
  by (auto simp add: os_remove_def logev_def map_of_filter_key)

lemma remove_existing_frame:
  "\<not> prefix p q \<Longrightarrow> map_of (tab (snd (remove_existing env p w))) q = map_of (tab w) q"
  by (auto simp add: remove_existing_def try_except_def say_def logev_def ret_def
      shutil_rmtree_def os_remove_def map_of_filter_key split: prod.splits sum.splits)

lemma shutil_copy2_frame:
  "\<not> prefix dst q \<Longrightarrow> map_of (tab (snd (shutil_copy2 env src dst w))) q = map_of (tab w) q"
  by (auto simp add: shutil_copy2_def logev_def Let_def join_def AList.update_conv'
      split: option.splits kind.splits)


lemma apart_src:
  assumes "apart src_root dst_root" "prefix src_root q"
  shows "\<not> prefix (join dst_root n) q" and "\<not> prefix q (join dst_root n)"
proof -
  show "\<not> prefix (join dst_root n) q"
  proof
    assume "prefix (join dst_root n) q"
    then have "prefix dst_root q" by (auto simp add: join_def dest: append_prefixD)
    then show False using assms by (auto simp add: apart_def dest: prefix_same_cases)
  qed
  show "\<not> prefix q (join dst_root n)"
  proof
    assume "prefix q (join dst_root n)"
    then have "prefix src_root (dst_root @ [n])"
      using assms(2) by (metis join_def prefix_order.trans)
    then show False using assms(1) by (auto simp add: apart_def)
  qed
qed

lemma say_run: "say m w = (Inr (), logev (Out m) w)"
  by (simp add: say_def)

lemma remove_existing_returns: "\<exists>w'. remove_existing env p w = (Inr (), w')"
  by (simp add: remove_existing_def try_except_def shutil_rmtree_def os_remove_def say_def ret_def)

lemma copy_file_returns:
  "\<exists>w'. try_except (bnd (shutil_copy2 env src dst) (\<lambda>_. say (MsgCopiedFile name)))
           (\<lambda>e. say (MsgSkipped name)) w = (Inr (), w')"
  by (auto simp add: try_except_def bnd_def shutil_copy2_def say_def Let_def
      split: option.splits kind.splits prod.splits sum.splits)

lemma copy_file_frame:
  "\<not> prefix dst q \<Longrightarrow>
   map_of (tab (snd (try_except (bnd (shutil_copy2 env src dst) (\<lambda>_. say (MsgCopiedFile name)))
           (\<lambda>e. say (MsgSkipped name)) w))) q = map_of (tab w) q"
  using shutil_copy2_frame [of dst q env src w]
  by (auto simp add: try_except_def bnd_def say_def logev_def split: prod.splits sum.splits)


lemma remove_existing_trace:
  "\<exists>evs. trace (snd (remove_existing env p w)) = trace w @ evs"
  by (simp add: remove_existing_def try_except_def shutil_rmtree_def os_remove_def say_def
      ret_def logev_def)

lemma shutil_copytree_trace:
  "shutil_copytree env src dst w = (r, w') \<Longrightarrow>
   (r = Inr () \<and> trace w' = trace w @ [Ev (Copytree src dst) True]) \<or>
   (r = Inl (OSError (Copytree src dst)) \<and> trace w' = trace w @ [Ev (Copytree src dst) False])"
  by (auto simp add: shutil_copytree_def logev_def split: if_splits)

lemma copy_file_trace:
  "\<exists>b. trace (snd (try_except (bnd (shutil_copy2 env src dst) (\<lambda>_. say (MsgCopiedFile name)))
           (\<lambda>e. say (MsgSkipped name)) w)) =
     trace w @ [Ev (Copy2 src dst) b, Out (if b then MsgCopiedFile name else MsgSkipped name)]"
  by (auto simp add: try_except_def bnd_def shutil_copy2_def say_def Let_def logev_def
      split: option.splits kind.splits prod.splits sum.splits)

lemma handled_mono: "handled s d evs n \<Longrightarrow> handled s d (a @ evs @ b) n"
  by (auto simp add: handled_def)

lemma copy_entries_events:
  "copy_entries env src_root dst_root names applied w = (r, w') \<Longrightarrow>
   \<exists>evs. trace w' = trace w @ evs \<and>
     (case r of
        Inr result \<Rightarrow> \<forall>n \<in> set names. handled src_root dst_root evs n
      | Inl e \<Rightarrow> \<exists>n \<in> set names.
          e = OSError (Copytree (join src_root n) (join dst_root n)) \<and>
          Ev (Copytree (join src_root n) (join dst_root n)) False \<in> set evs)"
proof (induction names arbitrary: applied w)
  case Nil
  then show ?case by (auto simp add: ret_def)
next
  case (Cons n names)
  define src where "src = join src_root n"
  define dst where "dst = join dst_root n"
  show ?case
  proof (cases "path_isdir (tab w) src")
    case True
    obtain w1 where w1: "remove_existing env dst w = (Inr (), w1)"
      using remove_existing_returns by blast
    obtain evs1 where e1: "trace w1 = trace w @ evs1"
      using remove_existing_trace [of env dst w] w1 by auto
    obtain r2 w2 where w2: "shutil_copytree env src dst w1 = (r2, w2)"
      by (cases "shutil_copytree env src dst w1")
    show ?thesis
    proof (cases r2)
      case (Inl e)
      have "r = Inl (OSError (Copytree src dst))" "trace w' = trace w1 @ [Ev (Copytree src dst) False]"
        using Cons.prems True w1 w2 Inl shutil_copytree_trace [OF w2]
        by (auto simp add: Let_def src_def dst_def bnd_def)
      then show ?thesis using e1 by (auto simp add: src_def dst_def)
    next
      case (Inr u)
      have t2: "trace w2 = trace w1 @ [Ev (Copytree src dst) True]"
        using shutil_copytree_trace [OF w2] Inr by auto
      define w3 where "w3 = logev (Out (MsgCopiedPack n)) w2"
      have rest: "copy_entries env src_root dst_root names (applied @ [n]) w3 = (r, w')"
        using Cons.prems True w1 w2 Inr
        by (simp add: Let_def src_def dst_def bnd_def say_def w3_def)
      from Cons.IH [OF rest] obtain evs where
        ev: "trace w' = trace w3 @ evs" and
        c: "case r of
              Inr result \<Rightarrow> \<forall>n \<in> set names. handled src_root dst_root evs n
            | Inl e \<Rightarrow> \<exists>n \<in> set names.
                e = OSError (Copytree (join src_root n) (join dst_root n)) \<and>
                Ev (Copytree (join src_root n) (join dst_root n)) False \<in> set evs"
        by blast
      define all where "all = evs1 @ [Ev (Copytree src dst) True, Out (MsgCopiedPack n)] @ evs"
      have tr: "trace w' = trace w @ all"
        using ev e1 t2 by (simp add: w3_def logev_def all_def)
      have hn: "handled src_root dst_root all n"
        by (simp add: handled_def all_def src_def dst_def)
      have hm: "handled src_root dst_root all m" if "handled src_root dst_root evs m" for m
        using handled_mono [OF that, of "evs1 @ [Ev (Copytree src dst) True, Out (MsgCopiedPack n)]" "[]"]
        by (simp add: all_def)
      show ?thesis
      proof (cases r)
        case (Inl e)
        then show ?thesis using tr c by (auto simp add: all_def)
      next
        case (Inr res)
        then show ?thesis using tr c hn hm by auto
      qed
    qed
  next
    case False
    obtain w1 where w1: "try_except (bnd (shutil_copy2 env src dst) (\<lambda>_. say (MsgCopiedFile n)))
           (\<lambda>e. say (MsgSkipped n)) w = (Inr (), w1)"
      using copy_file_returns by blast
    obtain b where e1: "trace w1 = trace w @ [Ev (Copy2 src dst) b, Out (if b then MsgCopiedFile n else MsgSkipped n)]"
      using copy_file_trace [of env src dst n w] w1 by auto
    have rest: "copy_entries env src_root dst_root names applied w1 = (r, w')"
      using Cons.prems False w1 by (simp add: Let_def src_def dst_def bnd_def)
    from Cons.IH [OF rest] obtain evs where
      ev: "trace w' = trace w1 @ evs" and
      c: "case r of
            Inr result \<Rightarrow> \<forall>n \<in> set names. handled src_root dst_root evs n
          | Inl e \<Rightarrow> \<exists>n \<in> set names.
              e = OSError (Copytree (join src_root n) (join dst_root n)) \<and>
              Ev (Copytree (join src_root n) (join dst_root n)) False \<in> set evs"
      by blast
    define all where "all = [Ev (Copy2 src dst) b, Out (if b then MsgCopiedFile n else MsgSkipped n)] @ evs"
    have tr: "trace w' = trace w @ all"
      using ev e1 by (simp add: all_def)
    have hn: "handled src_root dst_root all n"
      by (cases b) (simp_all add: handled_def all_def src_def dst_def)
    have hm: "handled src_root dst_root all m" if "handled src_root dst_root evs m" for m
      using handled_mono [OF that, of "[Ev (Copy2 src dst) b, Out (if b then MsgCopiedFile n else MsgSkipped n)]" "[]"]
      by (simp add: all_def)
    show ?thesis
    proof (cases r)
      case (Inl e)
      then show ?thesis using tr c by (auto simp add: all_def)
    next
      case (Inr res)
      then show ?thesis using tr c hn hm by auto
    qed
  qed
qed


lemma copied_as_mono: "copied_as s d evs isd n \<Longrightarrow> copied_as s d (a @ evs) isd n"
  by (auto simp add: copied_as_def split: if_splits)

lemma copy_entries_run:
  assumes ap: "apart src_root dst_root"
  shows "copy_entries env src_root dst_root names applied w = (Inr result, w') \<Longrightarrow>
     result = applied @ filter (\<lambda>n. path_isdir (tab w) (join src_root n)) names \<and>
     (\<forall>q. prefix src_root q \<longrightarrow> map_of (tab w') q = map_of (tab w) q) \<and>
     (\<exists>evs. trace w' = trace w @ evs \<and>
        (\<forall>n \<in> set names.
           copied_as src_root dst_root evs (path_isdir (tab w) (join src_root n)) n))"
proof (induction names arbitrary: applied w)
  case Nil
  then show ?case by (simp add: ret_def)
next
  case (Cons n names)
  define src where "src = join src_root n"
  define dst where "dst = join dst_root n"
  have fr: "\<not> prefix dst q" "\<not> prefix q dst" if "prefix src_root q" for q
    using apart_src [OF ap that, of n] by (simp_all add: dst_def)
  show ?case
  proof (cases "path_isdir (tab w) src")
    case True
    obtain w1 where w1: "remove_existing env dst w = (Inr (), w1)"
      using remove_existing_returns by blast
    obtain evs1 where e1: "trace w1 = trace w @ evs1"
      using remove_existing_trace [of env dst w] w1 by auto
    define w3 where "w3 = logev (Out (MsgCopiedPack n)) (snd (shutil_copytree env src dst w1))"
    from Cons.prems True w1 have
      w2: "shutil_copytree env src dst w1 = (Inr (), snd (shutil_copytree env src dst w1))" and
      rest: "copy_entries env src_root dst_root names (applied @ [n]) w3 = (Inr result, w')"
      by (auto simp add: Let_def src_def dst_def bnd_def say_def w3_def split: prod.splits sum.splits)
    have t3: "trace w3 = trace w1 @ [Ev (Copytree src dst) True, Out (MsgCopiedPack n)]"
      using shutil_copytree_trace [OF w2] by (simp add: w3_def logev_def)
    have same: "map_of (tab w3) q = map_of (tab w) q" if "prefix src_root q" for q
      using remove_existing_frame [of dst q env w] shutil_copytree_frame [of dst q w1 env src]
        fr [OF that] w1 by (simp add: logev_def w3_def)
    have dir: "path_isdir (tab w3) (join src_root m) = path_isdir (tab w) (join src_root m)" for m
      using same [of "join src_root m"] by (simp add: path_isdir_def join_def)
    from Cons.IH [OF rest] obtain evs where
      res: "result = (applied @ [n]) @ filter (\<lambda>n. path_isdir (tab w3) (join src_root n)) names" and
      fr': "\<forall>q. prefix src_root q \<longrightarrow> map_of (tab w') q = map_of (tab w3) q" and
      ev: "trace w' = trace w3 @ evs" and
      c: "\<forall>n \<in> set names. copied_as src_root dst_root evs (path_isdir (tab w3) (join src_root n)) n"
      by blast
    define all where "all = (evs1 @ [Ev (Copytree src dst) True, Out (MsgCopiedPack n)]) @ evs"
    have tr: "trace w' = trace w @ all"
      using ev e1 t3 by (simp add: all_def)
    have hn: "copied_as src_root dst_root all (path_isdir (tab w) (join src_root n)) n"
      using True by (simp add: copied_as_def all_def src_def dst_def)
    have hm: "copied_as src_root dst_root all (path_isdir (tab w) (join src_root m)) m"
      if "m \<in> set names" for m
    proof -
      have "copied_as src_root dst_root evs (path_isdir (tab w) (join src_root m)) m"
        using c that unfolding dir [symmetric] by blast
      then show ?thesis unfolding all_def by (rule copied_as_mono)
    qed
    show ?thesis
      using res fr' same dir tr hn hm True by (auto simp add: src_def)
  next
    case False
    obtain w1 where w1: "try_except (bnd (shutil_copy2 env src dst) (\<lambda>_. say (MsgCopiedFile n)))
           (\<lambda>e. say (MsgSkipped n)) w = (Inr (), w1)"
      using copy_file_returns by blast
    obtain b where e1: "trace w1 = trace w @ [Ev (Copy2 src dst) b, Out (if b then MsgCopiedFile n else MsgSkipped n)]"
      using copy_file_trace [of env src dst n w] w1 by auto
    from Cons.prems False w1 have
      rest: "copy_entries env src_root dst_root names applied w1 = (Inr result, w')"
      by (simp add: Let_def src_def dst_def bnd_def)
    have same: "map_of (tab w1) q = map_of (tab w) q" if "prefix src_root q" for q
      using copy_file_frame [of dst q env src n w] fr [OF that] w1 by simp
    have dir: "path_isdir (tab w1) (join src_root m) = path_isdir (tab w) (join src_root m)" for m
      using same [of "join src_root m"] by (simp add: path_isdir_def join_def)
    from Cons.IH [OF rest] obtain evs where
      res: "result = applied @ filter (\<lambda>n. path_isdir (tab w1) (join src_root n)) names" and
      fr': "\<forall>q. prefix src_root q \<longrightarrow> map_of (tab w') q = map_of (tab w1) q" and
      ev: "trace w' = trace w1 @ evs" and
      c: "\<forall>n \<in> set names. copied_as src_root dst_root evs (path_isdir (tab w1) (join src_root n)) n"
      by blast
    define all where "all = [Ev (Copy2 src dst) b, Out (if b then MsgCopiedFile n else MsgSkipped n)] @ evs"
    have tr: "trace w' = trace w @ all"
      using ev e1 by (simp add: all_def)
    have hn: "copied_as src_root dst_root all (path_isdir (tab w) (join src_root n)) n"
      using False by (cases b) (simp_all add: copied_as_def all_def src_def dst_def)
    have hm: "copied_as src_root dst_root all (path_isdir (tab w) (join src_root m)) m"
      if "m \<in> set names" for m
    proof -
      have "copied_as src_root dst_root evs (path_isdir (tab w) (join src_root m)) m"
        using c that unfolding dir [symmetric] by blast
      then show ?thesis unfolding all_def by (rule copied_as_mono)
    qed
    show ?thesis
      using res fr' same dir tr hn hm False by (auto simp add: src_def)
  qed
qed

section \<open>Lemmas on the events and on \<open>main\<close>\<close>

lemma emits_ret: "emits P (ret x)"
  by (simp add: emits_def ret_def)

lemma emits_raise: "emits P (raise e)"
  by (simp add: emits_def raise_def)

lemma emits_say: "P (Out m) \<Longrightarrow> emits P (say m)"
  by (simp add: emits_def say_def logev_def)

lemma emits_bnd: "emits P m \<Longrightarrow> (\<And>x. emits P (f x)) \<Longrightarrow> emits P (bnd m f)"
proof -
  assume m: "emits P m" and f: "\<And>x. emits P (f x)"
  show ?thesis
    unfolding emits_def
  proof
    fix w
    obtain r w1 where r: "m w = (r, w1)" by (cases "m w")
    obtain e1 where e1: "trace w1 = trace w @ e1" "\<forall>e \<in> set e1. P e"
      using m r unfolding emits_def by (metis snd_conv)
    show "\<exists>evs. trace (snd (bnd m f w)) = trace w @ evs \<and> (\<forall>e \<in> set evs. P e)"
    proof (cases r)
      case (Inl e)
      then show ?thesis using r e1 by (simp add: bnd_def)
    next
      case (Inr x)
      obtain e2 where e2: "trace (snd (f x w1)) = trace w1 @ e2" "\<forall>e \<in> set e2. P e"
        using f [of x] unfolding emits_def by blast
      have "trace (snd (bnd m f w)) = trace w @ (e1 @ e2)"
        using r Inr e1 e2 by (simp add: bnd_def)
      moreover have "\<forall>e \<in> set (e1 @ e2). P e" using e1 e2 by auto
      ultimately show ?thesis by blast
    qed
  qed
qed

lemma emits_try_except:
  "emits P m \<Longrightarrow> (\<And>e. emits P (h e)) \<Longrightarrow> emits P (try_except m h)"
proof -
  assume m: "emits P m" and h: "\<And>e. emits P (h e)"
  show ?thesis
    unfolding emits_def
  proof
    fix w
    obtain r w1 where r: "m w = (r, w1)" by (cases "m w")
    obtain e1 where e1: "trace w1 = trace w @ e1" "\<forall>e \<in> set e1. P e"
      using m r unfolding emits_def by (metis snd_conv)
    show "\<exists>evs. trace (snd (try_except m h w)) = trace w @ evs \<and> (\<forall>e \<in> set evs. P e)"
    proof (cases r)
      case (Inr x)
      then show ?thesis using r e1 by (simp add: try_except_def)
    next
      case (Inl x)
      obtain e2 where e2: "trace (snd (h x w1)) = trace w1 @ e2" "\<forall>e \<in> set e2. P e"
        using h [of x] unfolding emits_def by blast
      have "trace (snd (try_except m h w)) = trace w @ e1 \<or>
            trace (snd (try_except m h w)) = trace w @ (e1 @ e2)"
        using r Inl e1 e2 by (simp add: try_except_def)
      moreover have "\<forall>e \<in> set (e1 @ e2). P e" using e1 e2 by auto
      ultimately show ?thesis using e1 by blast
    qed
  qed
qed

lemma emits_try_finally:
  "emits P m \<Longrightarrow> emits P c \<Longrightarrow> emits P (try_finally m c)"
proof -
  assume m: "emits P m" and c: "emits P c"
  show ?thesis
    unfolding emits_def
  proof
    fix w
    obtain r w1 where r: "m w = (r, w1)" by (cases "m w")
    obtain e1 where e1: "trace w1 = trace w @ e1" "\<forall>e \<in> set e1. P e"
      using m r unfolding emits_def by (metis snd_conv)
    obtain e2 where e2: "trace (snd (c w1)) = trace w1 @ e2" "\<forall>e \<in> set e2. P e"
      using c unfolding emits_def by blast
    have "trace (snd (try_finally m c w)) = trace w @ (e1 @ e2)"
      using r e1 e2 by (auto simp add: try_finally_def split: prod.splits sum.splits)
    moreover have "\<forall>e \<in> set (e1 @ e2). P e" using e1 e2 by auto
    ultimately show "\<exists>evs. trace (snd (try_finally m c w)) = trace w @ evs \<and> (\<forall>e \<in> set evs. P e)"
      by blast
  qed
qed

lemma emits_if: "emits P m \<Longrightarrow> emits P m' \<Longrightarrow> emits P (\<lambda>w. if c w then m w else m' w)"
  by (simp add: emits_def)


lemma emits_gen: "emits (\<lambda>_. True) m \<Longrightarrow> \<exists>evs. trace (snd (m w)) = trace w @ evs"
  unfolding emits_def by blast

lemma emits_os_listdir: "emits P (os_listdir env p)"
  by (simp add: emits_def os_listdir_def)

lemma emits_os_makedirs: "(\<And>b. P (Ev (Makedirs p) b)) \<Longrightarrow> emits P (os_makedirs env p)"
  by (simp add: emits_def os_makedirs_def logev_def)

lemma emits_shutil_rmtree: "(\<And>b. P (Ev (Rmtree p) b)) \<Longrightarrow> emits P (shutil_rmtree env p)"
  by (simp add: emits_def shutil_rmtree_def logev_def)

lemma emits_os_remove: "(\<And>b. P (Ev (Remove p) b)) \<Longrightarrow> emits P (os_remove env p)"
  by (simp add: emits_def os_remove_def logev_def)

lemma emits_rmtree_ignore_errors:
  "(\<And>b. P (Ev (Rmtree p) b)) \<Longrightarrow> emits P (rmtree_ignore_errors env p)"
  by (simp add: emits_def rmtree_ignore_errors_def shutil_rmtree_def logev_def)

lemma emits_shutil_copytree:
  "(\<And>b. P (Ev (Copytree s d) b)) \<Longrightarrow> emits P (shutil_copytree env s d)"
  by (simp add: emits_def shutil_copytree_def logev_def)

lemma emits_shutil_copy2:
  "(\<And>b. P (Ev (Copy2 s d) b)) \<Longrightarrow> emits P (shutil_copy2 env s d)"
  by (simp add: emits_def shutil_copy2_def logev_def Let_def split: option.splits kind.splits)

lemma emits_tempfile_mkdtemp:
  "(\<And>p b. P (Ev (Mkdtemp p) b)) \<Longrightarrow> emits P (tempfile_mkdtemp env)"
  by (simp add: emits_def tempfile_mkdtemp_def logev_def Let_def)

lemma emits_os_mkdir: "(\<And>b. P (Ev (Mkdir p) b)) \<Longrightarrow> emits P (os_mkdir env p)"
  by (simp add: emits_def os_mkdir_def logev_def)

lemma emits_open_wb: "(\<And>b. P (Ev (Open p) b)) \<Longrightarrow> emits P (open_wb env p)"
  by (simp add: emits_def open_wb_def logev_def)

lemma emits_file_write: "(\<And>b. P (Ev (Write p n) b)) \<Longrightarrow> emits P (file_write env p n c)"
  by (simp add: emits_def file_write_def logev_def split: option.splits kind.splits)

lemma emits_requests_get: "emits P (requests_get env url)"
  by (simp add: emits_def requests_get_def ret_def raise_def split: option.splits)

lemma emits_raise_for_status: "emits P (raise_for_status r)"
  by (simp add: emits_def raise_for_status_def ret_def raise_def)

lemma emits_parse_total: "emits P (parse_total r)"
  by (simp add: emits_def parse_total_def ret_def raise_def split: option.splits)

lemma emits_zipfile_open: "emits P (zipfile_open env p)"
  by (simp add: emits_def zipfile_open_def split: option.splits kind.splits)

lemma emits_say_total: "(\<And>m. P (Out m)) \<Longrightarrow> emits P (say_total tot m other)"
  by (simp add: emits_def say_total_def say_def ret_def logev_def split: option.splits)

lemma emits_say_backup: "(\<And>m. P (Out m)) \<Longrightarrow> emits P (say_backup backup m)"
  by (simp add: emits_def say_backup_def say_def ret_def logev_def split: option.splits)

lemma emits_remove_entry:
  assumes "\<And>m. P (Out m)" "\<And>b. P (Ev (Rmtree p) b)" "\<And>b. P (Ev (Remove p) b)"
  shows "emits P (remove_entry env p)"
  unfolding remove_entry_def
  by (intro emits_try_except emits_if emits_shutil_rmtree emits_os_remove emits_say assms)

lemma emits_clear_entries:
  assumes "\<And>m. P (Out m)" "\<And>q b. P (Ev (Rmtree q) b)" "\<And>q b. P (Ev (Remove q) b)"
  shows "emits P (clear_entries env folder names)"
  by (induction names) (auto intro!: emits_ret emits_bnd emits_remove_entry assms)

lemma emits_clear_folder_contents:
  assumes "\<And>m. P (Out m)" "\<And>q b. P (Ev (Rmtree q) b)" "\<And>q b. P (Ev (Remove q) b)"
    "\<And>b. P (Ev (Makedirs folder) b)"
  shows "emits P (clear_folder_contents env folder)"
  unfolding clear_folder_contents_def
  by (intro emits_if emits_bnd emits_say emits_os_makedirs emits_os_listdir emits_clear_entries assms)

lemma emits_make_backup:
  assumes "\<And>m. P (Out m)" "\<And>d b. P (Ev (Copytree folder d) b)"
  shows "emits P (make_backup env folder)"
  unfolding make_backup_def Let_def
  by (intro emits_if emits_bnd emits_say emits_ret emits_shutil_copytree assms)

lemma emits_write_chunks:
  assumes "\<And>m. P (Out m)" "\<And>n b. P (Ev (Write p n) b)"
  shows "emits P (write_chunks env p tot cs d)"
  by (induction cs arbitrary: d) (auto intro!: emits_ret emits_bnd emits_file_write emits_say_total assms)

lemma emits_download_zip:
  assumes "\<And>m. P (Out m)" "\<And>n b. P (Ev (Write p n) b)" "\<And>b. P (Ev (Open p) b)"
  shows "emits P (download_zip env url p)"
  unfolding download_zip_def
  by (auto intro!: emits_ret emits_raise emits_bnd emits_say emits_requests_get emits_raise_for_status
      emits_parse_total emits_open_wb emits_write_chunks emits_say_total assms)

lemma emits_extract_member:
  assumes "\<And>q b. P (Ev (Makedirs q) b)" "\<And>q b. P (Ev (Mkdir q) b)"
    "\<And>q b. P (Ev (Open q) b)" "\<And>q n b. P (Ev (Write q n) b)"
  shows "emits P (extract_member env dest member)"
  unfolding extract_member_def Let_def write_member_def
  by (cases "snd member")
     (auto intro!: emits_ret emits_raise emits_bnd emits_if emits_os_makedirs emits_os_mkdir
       emits_open_wb emits_file_write assms)

lemma emits_extractall:
  assumes "\<And>q b. P (Ev (Makedirs q) b)" "\<And>q b. P (Ev (Mkdir q) b)"
    "\<And>q b. P (Ev (Open q) b)" "\<And>q n b. P (Ev (Write q n) b)"
  shows "emits P (extractall env dest members)"
  by (induction members) (auto intro!: emits_ret emits_bnd emits_extract_member assms)

lemma emits_extract_zip:
  assumes "\<And>m. P (Out m)" "\<And>q b. P (Ev (Makedirs q) b)" "\<And>q b. P (Ev (Mkdir q) b)"
    "\<And>q b. P (Ev (Open q) b)" "\<And>q n b. P (Ev (Write q n) b)"
  shows "emits P (extract_zip env z dest)"
  unfolding extract_zip_def
  by (intro emits_ret emits_bnd emits_say emits_zipfile_open emits_extractall assms)

lemma emits_remove_existing:
  assumes "\<And>m. P (Out m)" "\<And>b. P (Ev (Rmtree p) b)" "\<And>b. P (Ev (Remove p) b)"
  shows "emits P (remove_existing env p)"
  unfolding remove_existing_def
  by (intro emits_try_except emits_if emits_shutil_rmtree emits_os_remove emits_say emits_ret assms)

lemma emits_copy_entries:
  assumes "\<And>m. P (Out m)" "\<And>q b. P (Ev (Rmtree q) b)" "\<And>q b. P (Ev (Remove q) b)"
    "\<And>s n b. P (Ev (Copytree s (join dst_root n)) b)" "\<And>s d b. P (Ev (Copy2 s d) b)"
  shows "emits P (copy_entries env src_root dst_root names applied)"
proof (induction names arbitrary: applied)
  case Nil
  show ?case by (simp add: emits_ret)
next
  case (Cons n names)
  show ?case
    unfolding copy_entries.simps Let_def
    by (intro emits_if emits_bnd emits_try_except emits_say emits_remove_existing
        emits_shutil_copytree emits_shutil_copy2 Cons.IH assms)
qed

lemma emits_copy_top_level_folders:
  assumes "\<And>m. P (Out m)" "\<And>q b. P (Ev (Rmtree q) b)" "\<And>q b. P (Ev (Remove q) b)"
    "\<And>s n b. P (Ev (Copytree s (join dst_root n)) b)" "\<And>s d b. P (Ev (Copy2 s d) b)"
  shows "emits P (copy_top_level_folders env src_root dst_root)"
  unfolding copy_top_level_folders_def
  by (intro emits_bnd emits_os_listdir emits_copy_entries assms)

lemma emits_apply_steps:
  assumes "\<And>m. P (Out m)" "\<And>q b. P (Ev (Rmtree q) b)" "\<And>q b. P (Ev (Remove q) b)"
    "\<And>s n b. P (Ev (Copytree s (join target n)) b)" "\<And>s d b. P (Ev (Copy2 s d) b)"
    "\<And>q b. P (Ev (Makedirs q) b)" "\<And>q b. P (Ev (Mkdir q) b)"
    "\<And>q b. P (Ev (Open q) b)" "\<And>q n b. P (Ev (Write q n) b)"
  shows "emits P (apply_steps env target url backup tmpdir)"
  unfolding apply_steps_def Let_def
  by (intro emits_bnd emits_say emits_say_backup emits_download_zip emits_extract_zip
      emits_copy_top_level_folders assms)


lemma news_append: "trace w' = trace w @ evs \<Longrightarrow> news w w' = evs"
  by (simp add: news_def)

lemma backed_up_first_append:
  "\<forall>e \<in> set a. \<not> removal_under t e \<Longrightarrow> backed_up_first bk t b \<Longrightarrow> backed_up_first bk t (a @ b)"
  by (induction a) auto

lemma backed_up_first_quiet:
  "\<forall>e \<in> set a. \<not> removal_under t e \<Longrightarrow> backed_up_first bk t a"
  by (induction a) auto

lemma os_makedirs_exists:
  assumes "os_makedirs env p w = (Inr (), w')"
  shows "path_exists (tab w') p"
proof -
  from assms have p: "p \<noteq> []" and t: "tab w' = tab w @ missing_dirs (tab w) p"
    by (auto simp add: os_makedirs_def logev_def split: if_splits)
  show ?thesis
  proof (cases "map_of (tab w) p")
    case None
    have "p \<in> set (tl (prefixes p))" using p by (simp add: set_tl_prefixes)
    then have "(p, D) \<in> set (missing_dirs (tab w) p)"
      using None by (auto simp add: missing_dirs_def)
    then have "map_of (missing_dirs (tab w) p) p \<noteq> None"
      by (metis weak_map_of_SomeI option.distinct(1))
    then show ?thesis using t None by (simp add: path_exists_def map_add_def split: option.splits)
  next
    case (Some k)
    then show ?thesis using t by (simp add: path_exists_def map_add_def)
  qed
qed

lemma create_missing_run:
  assumes "create_missing env target w = (r, w')"
  shows "(\<forall>e \<in> set (news w w'). \<not> removal_under t e) \<and> (\<exists>evs. trace w' = trace w @ evs) \<and>
         (r = Inr () \<longrightarrow> path_exists (tab w') target)"
proof (cases "path_exists (tab w) target")
  case True
  then show ?thesis using assms by (auto simp add: create_missing_def ret_def news_def)
next
  case False
  obtain rm wm where m: "os_makedirs env target (logev (Out MsgCreatingTarget) w) = (rm, wm)"
    by (cases "os_makedirs env target (logev (Out MsgCreatingTarget) w)")
  have eq: "r = rm" "w' = wm"
    using assms False m by (auto simp add: create_missing_def bnd_def say_def split: sum.splits)
  have tr: "\<exists>b. trace wm = trace w @ [Out MsgCreatingTarget, Ev (Makedirs target) b]"
    using m by (auto simp add: os_makedirs_def logev_def split: if_splits)
  then obtain b where b: "trace w' = trace w @ [Out MsgCreatingTarget, Ev (Makedirs target) b]"
    using eq by auto
  have ex: "path_exists (tab w') target" if "r = Inr ()"
    using os_makedirs_exists [of env target "logev (Out MsgCreatingTarget) w" wm] m eq that by simp
  show ?thesis using b ex by (auto simp add: news_def)
qed

lemma action_backed_up:
  assumes ex: "path_exists (tab w) target" and rest: "\<And>backup. emits (\<lambda>_. True) (rest backup)"
  shows "backed_up_first (Ev (Copytree target (backup_path env target)) True) target
           (news w (snd (bnd (say m) (\<lambda>_. bnd (make_backup env target) rest) w)))"
proof -
  define bk where "bk = backup_path env target"
  define w0 where "w0 = logev (Out (MsgCreatingBackup bk)) (logev (Out m) w)"
  obtain rc w1 where c: "shutil_copytree env target bk w0 = (rc, w1)"
    by (cases "shutil_copytree env target bk w0")
  have t0: "trace w0 = trace w @ [Out m, Out (MsgCreatingBackup bk)]"
    by (simp add: w0_def logev_def)
  have ex0: "path_exists (tab (logev (Out m) w)) target" using ex by (simp add: logev_def)
  show ?thesis
  proof (cases rc)
    case (Inl e)
    have "trace w1 = trace w0 @ [Ev (Copytree target bk) False]"
      using shutil_copytree_trace [OF c] Inl by auto
    moreover have "snd (bnd (say m) (\<lambda>_. bnd (make_backup env target) rest) w) = w1"
      using c Inl ex0
      by (simp add: bnd_def say_def make_backup_def Let_def backup_path_def bk_def w0_def)
    ultimately show ?thesis using t0 by (simp add: news_def bk_def)
  next
    case (Inr u)
    have t1: "trace w1 = trace w0 @ [Ev (Copytree target bk) True]"
      using shutil_copytree_trace [OF c] Inr by auto
    define w2 where "w2 = logev (Out MsgBackupComplete) w1"
    have fin: "snd (bnd (say m) (\<lambda>_. bnd (make_backup env target) rest) w) = snd (rest (Some bk) w2)"
      using c Inr ex0
      by (simp add: bnd_def say_def make_backup_def Let_def backup_path_def bk_def w0_def w2_def ret_def)
    obtain evs where "trace (snd (rest (Some bk) w2)) = trace w2 @ evs"
      using emits_gen [OF rest] by blast
    then have "trace (snd (rest (Some bk) w2)) =
        trace w @ [Out m, Out (MsgCreatingBackup bk), Ev (Copytree target bk) True, Out MsgBackupComplete] @ evs"
      using t0 t1 by (simp add: w2_def logev_def)
    then show ?thesis unfolding fin by (simp add: news_def bk_def)
  qed
qed

lemma emits_clear_rest: "emits (\<lambda>_. True) (\<lambda>w. bnd (clear_folder_contents env target) (\<lambda>_.
     bnd (say MsgCleared) (\<lambda>_. say_backup backup MsgBackupLocated)) w)"
  by (intro emits_bnd emits_clear_folder_contents emits_say emits_say_backup) simp_all

lemma emits_apply_rest: "emits (\<lambda>_. True) (\<lambda>w. bnd (clear_folder_contents env target) (\<lambda>_.
     bnd (tempfile_mkdtemp env) (\<lambda>tmpdir.
     try_finally
       (try_except
          (apply_steps env target url backup tmpdir)
          (\<lambda>e. bnd (say (MsgError e)) (\<lambda>_. say_backup backup MsgRestore)))
       (rmtree_ignore_errors env tmpdir))) w)"
  by (intro emits_bnd emits_clear_folder_contents emits_say emits_say_backup emits_tempfile_mkdtemp
      emits_try_finally emits_try_except emits_apply_steps emits_rmtree_ignore_errors) simp_all

lemma clear_action_backed_up:
  "path_exists (tab w) target \<Longrightarrow>
   backed_up_first (Ev (Copytree target (backup_path env target)) True) target
     (news w (snd (clear_action env target w)))"
  unfolding clear_action_def
  by (rule action_backed_up) (simp_all add: emits_clear_rest [simplified])

lemma apply_action_backed_up:
  "path_exists (tab w) target \<Longrightarrow>
   backed_up_first (Ev (Copytree target (backup_path env target)) True) target
     (news w (snd (apply_action env target patch w)))"
  unfolding apply_action_def
  by (rule action_backed_up) (simp_all add: emits_apply_rest [simplified])


lemma emits_clear_action: "emits (\<lambda>_. True) (clear_action env target)"
  unfolding clear_action_def
  by (intro emits_bnd emits_clear_folder_contents emits_say emits_say_backup emits_make_backup)
     simp_all

lemma emits_apply_action: "emits (\<lambda>_. True) (apply_action env target patch)"
  unfolding apply_action_def
  by (intro emits_bnd emits_clear_folder_contents emits_say emits_say_backup emits_tempfile_mkdtemp
      emits_try_finally emits_try_except emits_apply_steps emits_rmtree_ignore_errors
      emits_make_backup) simp_all

lemma main_unfold:
  "main env l1 l2 w =
     (if py_strip l1 \<noteq> ''1'' \<and> py_strip l1 \<noteq> ''2''
      then (Inl (SystemExit 1), logev (Out MsgInvalidSelection) (logev (Out MsgBanner) w))
      else if py_strip l2 \<notin> set [''1'', ''2'', ''3'', ''4'']
      then (Inl (SystemExit 1),
            logev (Out MsgInvalidSelection) (logev (Out MsgMenu)
              (logev (Out (MsgTarget (chosen env l1))) (logev (Out MsgBanner) w))))
      else bnd (create_missing env (chosen env l1)) (\<lambda>_. body env (chosen env l1) (py_strip l2))
             (logev (Out MsgMenu) (logev (Out (MsgTarget (chosen env l1))) (logev (Out MsgBanner) w))))"
  by (auto simp add: main_def prompt_version_def prompt_action_def bnd_def say_def ret_def
      raise_def Let_def chosen_def body_def)

lemma body_cases:
  "action \<in> set [''1'', ''2'', ''3'', ''4''] \<Longrightarrow>
   body env target action = clear_action env target \<or>
   (\<exists>patch. body env target action = apply_action env target patch)"
  by (auto simp add: body_def PATCHES_def)

section \<open>Lemmas on the exceptions, the staging directory and the backup\<close>

lemma raises_ret: "raises P (ret x)"
  by (simp add: raises_def ret_def)

lemma raises_raise: "P e \<Longrightarrow> raises P (raise e)"
  by (simp add: raises_def raise_def)

lemma raises_say: "raises P (say m)"
  by (simp add: raises_def say_def)

lemma raises_bnd: "raises P m \<Longrightarrow> (\<And>x. raises P (f x)) \<Longrightarrow> raises P (bnd m f)"
  unfolding raises_def bnd_def by (auto split: prod.splits sum.splits)

lemma raises_if: "raises P m \<Longrightarrow> raises P m' \<Longrightarrow> raises P (\<lambda>w. if c w then m w else m' w)"
  by (simp add: raises_def)

lemma raises_try_except:
  "raises P m \<Longrightarrow> (\<And>e. raises P (h e)) \<Longrightarrow> raises P (try_except m h)"
  unfolding raises_def try_except_def by (auto split: prod.splits sum.splits if_splits)

lemma raises_os_listdir: "raises is_Exception (os_listdir env p)"
  by (simp add: raises_def os_listdir_def)

lemma raises_os_makedirs: "raises is_Exception (os_makedirs env p)"
  by (simp add: raises_def os_makedirs_def)

lemma raises_shutil_rmtree: "raises is_Exception (shutil_rmtree env p)"
  by (simp add: raises_def shutil_rmtree_def)

lemma raises_os_remove: "raises is_Exception (os_remove env p)"
  by (simp add: raises_def os_remove_def)

lemma raises_shutil_copytree: "raises is_Exception (shutil_copytree env s d)"
  by (simp add: raises_def shutil_copytree_def)

lemma raises_shutil_copy2: "raises is_Exception (shutil_copy2 env s d)"
  by (auto simp add: raises_def shutil_copy2_def Let_def split: option.splits kind.splits if_splits)

lemma raises_os_mkdir: "raises is_Exception (os_mkdir env p)"
  by (simp add: raises_def os_mkdir_def)

lemma raises_open_wb: "raises is_Exception (open_wb env p)"
  by (simp add: raises_def open_wb_def)

lemma raises_file_write: "raises is_Exception (file_write env p n c)"
  by (auto simp add: raises_def file_write_def split: option.splits kind.splits if_splits)

lemma raises_requests_get: "raises is_Exception (requests_get env url)"
  by (auto simp add: raises_def requests_get_def ret_def raise_def split: option.splits)

lemma raises_raise_for_status: "raises is_Exception (raise_for_status r)"
  by (auto simp add: raises_def raise_for_status_def ret_def raise_def split: if_splits)

lemma raises_parse_total: "raises is_Exception (parse_total r)"
  by (auto simp add: raises_def parse_total_def ret_def raise_def split: option.splits if_splits)

lemma raises_zipfile_open: "raises is_Exception (zipfile_open env p)"
  by (auto simp add: raises_def zipfile_open_def split: option.splits kind.splits if_splits)

lemma raises_say_total: "raises P (say_total tot m other)"
  by (simp add: raises_def say_total_def say_def ret_def split: option.splits)

lemma raises_say_backup: "raises P (say_backup backup m)"
  by (simp add: raises_def say_backup_def say_def ret_def split: option.splits)

lemma raises_write_chunks: "raises is_Exception (write_chunks env p tot cs d)"
  by (induction cs arbitrary: d)
     (auto intro!: raises_ret raises_bnd raises_file_write raises_say_total)

lemma raises_download_zip: "raises is_Exception (download_zip env url p)"
  unfolding download_zip_def
  by (auto intro!: raises_ret raises_raise raises_bnd raises_say raises_requests_get
      raises_raise_for_status raises_parse_total raises_open_wb raises_write_chunks
      raises_say_total)

lemma raises_extract_member: "raises is_Exception (extract_member env dest member)"
  unfolding extract_member_def Let_def write_member_def
  by (cases "snd member")
     (auto intro!: raises_ret raises_raise raises_bnd raises_if raises_os_makedirs raises_os_mkdir
       raises_open_wb raises_file_write)

lemma raises_extractall: "raises is_Exception (extractall env dest members)"
  by (induction members) (auto intro!: raises_ret raises_bnd raises_extract_member)

lemma raises_extract_zip: "raises is_Exception (extract_zip env z dest)"
  unfolding extract_zip_def
  by (intro raises_ret raises_bnd raises_say raises_zipfile_open raises_extractall)

lemma raises_remove_existing: "raises is_Exception (remove_existing env p)"
  unfolding remove_existing_def
  by (intro raises_try_except raises_if raises_shutil_rmtree raises_os_remove raises_say raises_ret)

lemma raises_copy_entries:
  "raises is_Exception (copy_entries env src_root dst_root names applied)"
proof (induction names arbitrary: applied)
  case Nil
  show ?case by (simp add: raises_ret)
next
  case (Cons n names)
  show ?case
    unfolding copy_entries.simps Let_def
    by (intro raises_if raises_bnd raises_try_except raises_say raises_remove_existing
        raises_shutil_copytree raises_shutil_copy2 Cons.IH)
qed

lemma raises_copy_top_level_folders:
  "raises is_Exception (copy_top_level_folders env src_root dst_root)"
  unfolding copy_top_level_folders_def
  by (intro raises_bnd raises_os_listdir raises_copy_entries)

lemma raises_apply_steps: "raises is_Exception (apply_steps env target url backup tmpdir)"
  unfolding apply_steps_def Let_def
  by (intro raises_bnd raises_say raises_say_backup raises_download_zip raises_extract_zip
      raises_copy_top_level_folders)

lemma guarded_returns:
  assumes "raises is_Exception m"
  shows "\<exists>w'. try_except m (\<lambda>e. bnd (say (MsgError e)) (\<lambda>_. say_backup backup MsgRestore)) w
           = (Inr (), w')"
proof -
  obtain r w1 where r: "m w = (r, w1)" by (cases "m w")
  show ?thesis
  proof (cases r)
    case (Inl e)
    then have "is_Exception e" using assms r by (auto simp add: raises_def)
    then show ?thesis using r Inl
      by (cases backup) (simp_all add: try_except_def bnd_def say_def say_backup_def ret_def)
  next
    case (Inr u)
    then show ?thesis using r by (simp add: try_except_def)
  qed
qed

lemma rmtree_ignore_errors_last:
  "\<exists>b w5. rmtree_ignore_errors env p w = (Inr (), w5) \<and>
       trace w5 = trace w @ [Ev (Rmtree p) b] \<and>
       (b \<longrightarrow> (\<forall>q. prefix p q \<longrightarrow> map_of (tab w5) q = None))"
  by (auto simp add: rmtree_ignore_errors_def shutil_rmtree_def logev_def map_of_filter_key)

lemma backup_path_length: "target \<noteq> [] \<Longrightarrow> length (backup_path env target) = length target"
  by (simp add: backup_path_def join_def dirname_def)

lemma backup_path_neq: "target \<noteq> [] \<Longrightarrow> backup_path env target \<noteq> target"
proof
  assume t: "target \<noteq> []" and eq: "backup_path env target = target"
  then have "last (backup_path env target) = last target" by simp
  then show False using t by (simp add: backup_path_def join_def basename_def)
qed

lemma backup_path_sibling:
  assumes t: "target \<noteq> []" and q: "prefix target q"
  shows "\<not> prefix (backup_path env target) q" and "\<not> prefix q (backup_path env target)"
proof -
  have eqlen: "a = b" if "prefix a b" "length a = length b" for a b :: path
    using that by (auto simp add: prefix_def)
  show "\<not> prefix (backup_path env target) q"
  proof
    assume "prefix (backup_path env target) q"
    then have "prefix (backup_path env target) target \<or> prefix target (backup_path env target)"
      using q by (rule prefix_same_cases)
    then show False
      using backup_path_length [OF t, of env] backup_path_neq [OF t, of env] eqlen by metis
  qed
  show "\<not> prefix q (backup_path env target)"
  proof
    assume "prefix q (backup_path env target)"
    then have "prefix target (backup_path env target)" using q by (metis prefix_order.trans)
    then show False
      using backup_path_length [OF t, of env] backup_path_neq [OF t, of env] eqlen by metis
  qed
qed

lemma backup_path_not_child: "target \<noteq> [] \<Longrightarrow> backup_path env target \<noteq> join target n"
  using backup_path_length [of target env] by (auto simp add: join_def)

lemma chosen_nonempty: "chosen env l1 \<noteq> []"
  by (simp add: chosen_def PATH_UWP_def PATH_GDK_def)

lemma action_backup_failed:
  assumes ex: "path_exists (tab w) target" and t: "target \<noteq> []"
    and rest: "\<And>backup. emits (\<lambda>e. e \<noteq> Ev (Copytree target (backup_path env target)) False) (rest backup)"
    and failed: "Ev (Copytree target (backup_path env target)) False
                   \<in> set (news w (snd (bnd (say m) (\<lambda>_. bnd (make_backup env target) rest) w)))"
  shows "fst (bnd (say m) (\<lambda>_. bnd (make_backup env target) rest) w)
           = Inl (OSError (Copytree target (backup_path env target))) \<and>
         news w (snd (bnd (say m) (\<lambda>_. bnd (make_backup env target) rest) w))
           = [Out m, Out (MsgCreatingBackup (backup_path env target)),
              Ev (Copytree target (backup_path env target)) False] \<and>
         (\<forall>q. prefix target q \<longrightarrow>
            map_of (tab (snd (bnd (say m) (\<lambda>_. bnd (make_backup env target) rest) w))) q
              = map_of (tab w) q)"
proof -
  define bk where "bk = backup_path env target"
  define w0 where "w0 = logev (Out (MsgCreatingBackup bk)) (logev (Out m) w)"
  obtain rc w1 where c: "shutil_copytree env target bk w0 = (rc, w1)"
    by (cases "shutil_copytree env target bk w0")
  have t0: "trace w0 = trace w @ [Out m, Out (MsgCreatingBackup bk)]"
    by (simp add: w0_def logev_def)
  have tab0: "tab w0 = tab w" by (simp add: w0_def logev_def)
  have ex0: "path_exists (tab (logev (Out m) w)) target" using ex by (simp add: logev_def)
  show ?thesis
  proof (cases rc)
    case (Inl e)
    have e: "rc = Inl (OSError (Copytree target bk))"
      and t1: "trace w1 = trace w0 @ [Ev (Copytree target bk) False]"
      using shutil_copytree_trace [OF c] Inl by auto
    have fin: "fst (bnd (say m) (\<lambda>_. bnd (make_backup env target) rest) w) = Inl (OSError (Copytree target bk))"
      "snd (bnd (say m) (\<lambda>_. bnd (make_backup env target) rest) w) = w1"
      using c Inl ex0 e
      by (simp_all add: bnd_def say_def make_backup_def Let_def backup_path_def bk_def w0_def)
    have fr: "map_of (tab w1) q = map_of (tab w) q" if "prefix target q" for q
      using shutil_copytree_frame [of bk q w0 env target] backup_path_sibling [OF t that, of env]
        c tab0 by (simp add: bk_def)
    have "news w w1 = [Out m, Out (MsgCreatingBackup bk), Ev (Copytree target bk) False]"
      using t0 t1 by (intro news_append) simp
    then show ?thesis using fin fr by (simp add: bk_def)
  next
    case (Inr u)
    have t1: "trace w1 = trace w0 @ [Ev (Copytree target bk) True]"
      using shutil_copytree_trace [OF c] Inr by auto
    define w2 where "w2 = logev (Out MsgBackupComplete) w1"
    have fin: "snd (bnd (say m) (\<lambda>_. bnd (make_backup env target) rest) w) = snd (rest (Some bk) w2)"
      using c Inr ex0
      by (simp add: bnd_def say_def make_backup_def Let_def backup_path_def bk_def w0_def w2_def ret_def)
    obtain evs where evs: "trace (snd (rest (Some bk) w2)) = trace w2 @ evs"
      "\<forall>e \<in> set evs. e \<noteq> Ev (Copytree target bk) False"
      using rest [of "Some bk"] unfolding emits_def bk_def by blast
    have "news w (snd (rest (Some bk) w2)) =
        [Out m, Out (MsgCreatingBackup bk), Ev (Copytree target bk) True, Out MsgBackupComplete] @ evs"
      using t0 t1 evs by (intro news_append) (simp add: w2_def logev_def)
    then have False using failed evs unfolding fin by (auto simp add: bk_def)
    then show ?thesis by simp
  qed
qed

lemma emits_clear_rest_P:
  "emits (\<lambda>e. e \<noteq> Ev (Copytree target bk) False) (\<lambda>w. bnd (clear_folder_contents env target) (\<lambda>_.
     bnd (say MsgCleared) (\<lambda>_. say_backup backup MsgBackupLocated)) w)"
  by (intro emits_bnd emits_clear_folder_contents emits_say emits_say_backup) simp_all

lemma emits_apply_rest_P:
  assumes "\<And>n. join target n \<noteq> bk"
  shows "emits (\<lambda>e. e \<noteq> Ev (Copytree target bk) False) (\<lambda>w. bnd (clear_folder_contents env target) (\<lambda>_.
     bnd (tempfile_mkdtemp env) (\<lambda>tmpdir.
     try_finally
       (try_except
          (apply_steps env target url backup tmpdir)
          (\<lambda>e. bnd (say (MsgError e)) (\<lambda>_. say_backup backup MsgRestore)))
       (rmtree_ignore_errors env tmpdir))) w)"
  by (intro emits_bnd emits_clear_folder_contents emits_say emits_say_backup emits_tempfile_mkdtemp
      emits_try_finally emits_try_except emits_apply_steps emits_rmtree_ignore_errors)
     (simp_all add: assms)


lemma os_makedirs_frame:
  assumes "os_makedirs env p w = (r, w')" and "prefix p q"
  shows "map_of (tab w') q = map_of (tab w) q \<or>
         (q = p \<and> map_of (tab w) p = None \<and> map_of (tab w') p = Some D)"
proof (cases "map_of (tab w) q")
  case (Some k)
  then show ?thesis using assms(1)
    by (auto simp add: os_makedirs_def logev_def map_add_def split: if_splits)
next
  case None
  show ?thesis
  proof (cases "q = p")
    case False
    have "map_of (missing_dirs (tab w) p) q = None"
      using False assms(2) by (intro map_of_None_keys) (auto dest!: missing_dirs_keys)
    then show ?thesis using assms(1) None
      by (auto simp add: os_makedirs_def logev_def map_add_def split: if_splits)
  next
    case True
    have "map_of (missing_dirs (tab w) p) p = None \<or> map_of (missing_dirs (tab w) p) p = Some D"
      by (cases "map_of (missing_dirs (tab w) p) p")
         (auto dest!: map_of_SomeD missing_dirs_keys)
    then show ?thesis using assms(1) None True
      by (auto simp add: os_makedirs_def logev_def map_add_def split: if_splits)
  qed
qed

lemma create_missing_cases:
  assumes "create_missing env target w = (r, w')"
  shows "(r = Inr () \<and> path_exists (tab w') target \<and>
          (news w w' = [] \<or> news w w' = [Out MsgCreatingTarget, Ev (Makedirs target) True]) \<or>
          r = Inl (OSError (Makedirs target)) \<and>
          news w w' = [Out MsgCreatingTarget, Ev (Makedirs target) False]) \<and>
         trace w' = trace w @ news w w' \<and>
         (\<forall>q. prefix target q \<longrightarrow>
            map_of (tab w') q = map_of (tab w) q \<or>
            (q = target \<and> map_of (tab w) target = None \<and> map_of (tab w') target = Some D))"
proof (cases "path_exists (tab w) target")
  case True
  then show ?thesis using assms by (auto simp add: create_missing_def ret_def news_def)
next
  case False
  define w0 where "w0 = logev (Out MsgCreatingTarget) w"
  have m: "os_makedirs env target w0 = (r, w')"
    using assms False by (simp add: create_missing_def bnd_def say_def w0_def)
  have tab0: "tab w0 = tab w" by (simp add: w0_def logev_def)
  have tr: "trace w' = trace w @ [Out MsgCreatingTarget, Ev (Makedirs target) (r = Inr ())]"
    and r: "r = Inr () \<or> r = Inl (OSError (Makedirs target))"
    using m by (auto simp add: os_makedirs_def logev_def w0_def split: if_splits)
  have n: "news w w' = [Out MsgCreatingTarget, Ev (Makedirs target) (r = Inr ())]"
    by (rule news_append [OF tr])
  have ex: "path_exists (tab w') target" if "r = Inr ()"
    using os_makedirs_exists [of env target w0 w'] m that by simp
  have fr: "map_of (tab w') q = map_of (tab w) q \<or>
            (q = target \<and> map_of (tab w) target = None \<and> map_of (tab w') target = Some D)"
    if "prefix target q" for q
    using os_makedirs_frame [OF m that] tab0 by simp
  show ?thesis using r n tr ex fr by auto
qed

section \<open>Lemmas on \<^verbatim>\<open>extract_zip\<close>\<close>

lemma outside_kept_refl: "outside_kept dest t t"
  by (simp add: outside_kept_def)

lemma outside_kept_trans:
  "outside_kept dest t t1 \<Longrightarrow> outside_kept dest t1 t2 \<Longrightarrow> outside_kept dest t t2"
  unfolding outside_kept_def by (metis option.distinct(1))

lemma confined_ret: "confined dest (ret x)"
  by (simp add: confined_def ret_def outside_kept_refl)

lemma confined_raise: "confined dest (raise e)"
  by (simp add: confined_def raise_def outside_kept_refl)

lemma confined_say: "confined dest (say m)"
  by (simp add: confined_def say_def logev_def outside_kept_refl)

lemma confined_bnd: "confined dest m \<Longrightarrow> (\<And>x. confined dest (f x)) \<Longrightarrow> confined dest (bnd m f)"
  unfolding confined_def bnd_def
proof
  fix w
  assume m: "\<forall>w. outside_kept dest (tab w) (tab (snd (m w)))"
    and f: "\<And>x. \<forall>w. outside_kept dest (tab w) (tab (snd (f x w)))"
  obtain r w1 where r: "m w = (r, w1)" by (cases "m w")
  have k1: "outside_kept dest (tab w) (tab w1)" using m r by (metis snd_conv)
  show "outside_kept dest (tab w)
          (tab (snd (case m w of (Inl e, w') \<Rightarrow> (Inl e, w') | (Inr x, w') \<Rightarrow> f x w')))"
  proof (cases r)
    case (Inl e)
    then show ?thesis using r k1 by simp
  next
    case (Inr x)
    then show ?thesis using r k1 f [of x] outside_kept_trans by auto
  qed
qed

lemma confined_if:
  "confined dest m \<Longrightarrow> confined dest m' \<Longrightarrow> confined dest (\<lambda>w. if c w then m w else m' w)"
  by (simp add: confined_def)

lemma confined_zipfile_open: "confined dest (zipfile_open env p)"
  by (simp add: confined_def zipfile_open_def outside_kept_refl split: option.splits kind.splits)

lemma prefix_of_inside:
  assumes "prefix k (dest @ arc)" "\<not> prefix dest k"
  shows "strict_prefix k dest"
  using assms by (auto simp add: prefix_append strict_prefix_def)

lemma confined_os_makedirs:
  assumes "prefix p (dest @ arc)"
  shows "confined dest (os_makedirs env p)"
  unfolding confined_def outside_kept_def
proof (intro allI impI)
  fix w q
  assume q: "\<not> prefix dest q"
  let ?t' = "tab (snd (os_makedirs env p w))"
  show "map_of ?t' q = map_of (tab w) q \<or>
        (map_of (tab w) q = None \<and> strict_prefix q dest \<and> map_of ?t' q = Some D)"
  proof (cases "map_of (tab w) q")
    case (Some k)
    then show ?thesis by (simp add: os_makedirs_def logev_def map_add_def)
  next
    case None
    show ?thesis
    proof (cases "map_of (missing_dirs (tab w) p) q")
      case None
      then show ?thesis using \<open>map_of (tab w) q = None\<close>
        by (simp add: os_makedirs_def logev_def map_add_def)
    next
      case (Some k)
      then have "prefix q p" "k = D"
        by (auto dest!: map_of_SomeD missing_dirs_keys)
      then have "strict_prefix q dest" "k = D"
        using assms q prefix_of_inside by (metis prefix_order.trans)+
      then show ?thesis using Some \<open>map_of (tab w) q = None\<close>
        by (simp add: os_makedirs_def logev_def map_add_def)
    qed
  qed
qed

lemma confined_os_mkdir: "prefix dest p \<Longrightarrow> confined dest (os_mkdir env p)"
  unfolding confined_def outside_kept_def
  by (auto simp add: os_mkdir_def logev_def map_add_def split: option.splits)

lemma confined_open_wb: "prefix dest p \<Longrightarrow> confined dest (open_wb env p)"
  unfolding confined_def outside_kept_def
  by (auto simp add: open_wb_def logev_def AList.update_conv')

lemma confined_file_write: "prefix dest p \<Longrightarrow> confined dest (file_write env p n c)"
  unfolding confined_def outside_kept_def
  by (auto simp add: file_write_def logev_def AList.update_conv' split: option.splits kind.splits)

lemma confined_extract_member: "confined dest (extract_member env dest member)"
proof -
  have up: "prefix (butlast (dest @ sanitize (fst member))) (dest @ sanitize (fst member))"
    by (simp add: prefixeq_butlast)
  show ?thesis
    unfolding extract_member_def Let_def write_member_def
    by (cases "snd member")
       (auto intro!: confined_ret confined_raise confined_bnd confined_if confined_os_mkdir
         confined_open_wb confined_file_write confined_os_makedirs [OF up])
qed

lemma confined_extractall: "confined dest (extractall env dest members)"
  by (induction members) (auto intro!: confined_ret confined_bnd confined_extract_member)

lemma confined_extract_zip: "confined dest (extract_zip env z dest)"
  unfolding extract_zip_def
  by (intro confined_ret confined_bnd confined_say confined_zipfile_open confined_extractall)

section \<open>Lemmas on applying a patch twice\<close>

lemma tidyD: "tidy t \<Longrightarrow> (q, k) \<in> set t \<Longrightarrow> q \<noteq> [] \<and> parent_ok t q"
  by (auto simp add: tidy_def list_all_iff)

lemma tidyI: "(\<And>q k. (q, k) \<in> set t \<Longrightarrow> q \<noteq> [] \<and> parent_ok t q) \<Longrightarrow> tidy t"
  by (auto simp add: tidy_def list_all_iff)

lemma tidy_parent:
  assumes "tidy t" "map_of t q \<noteq> None" "butlast q \<noteq> []"
  shows "map_of t (butlast q) = Some D"
proof -
  from assms(2) obtain k where "(q, k) \<in> set t" by (auto dest: map_of_SomeD)
  then show ?thesis using tidyD [OF assms(1)] assms(3) by (auto simp add: parent_ok_def path_isdir_def)
qed

lemma tidy_ancestor:
  "tidy t \<Longrightarrow> map_of t q \<noteq> None \<Longrightarrow> strict_prefix p q \<Longrightarrow> p \<noteq> [] \<Longrightarrow> map_of t p = Some D"
proof (induction "length q" arbitrary: q)
  case 0
  then show ?case by simp
next
  case (Suc n)
  from Suc.prems(3) have qne: "q \<noteq> []" by auto
  have pb: "prefix p (butlast q)"
    using Suc.prems(3) by (metis qne append_butlast_last_id prefix_snoc strict_prefix_def)
  then have bne: "butlast q \<noteq> []" using Suc.prems(4) by auto
  have par: "map_of t (butlast q) = Some D"
    using tidy_parent [OF Suc.prems(1,2) bne] .
  show ?case
  proof (cases "p = butlast q")
    case True
    then show ?thesis using par by simp
  next
    case False
    then have sp: "strict_prefix p (butlast q)" using pb by (simp add: strict_prefix_def)
    have len: "n = length (butlast q)" using Suc.hyps(2) by simp
    show ?thesis using Suc.hyps(1) [OF len Suc.prems(1) _ sp Suc.prems(4)] par by simp
  qed
qed

lemma tidy_root: "tidy t \<Longrightarrow> map_of t [] = None"
  by (metis map_of_SomeD not_Some_eq tidyD)

lemma tidy_below_missing:
  assumes "tidy t" "map_of t p = None" "p \<noteq> []" "prefix p q"
  shows "map_of t q = None"
proof (rule ccontr)
  assume q: "map_of t q \<noteq> None"
  then have "p \<noteq> q" using assms(2) by auto
  then have "strict_prefix p q" using assms(4) by (simp add: strict_prefix_def)
  then show False using tidy_ancestor [OF assms(1) q _ assms(3)] assms(2) by simp
qed

lemma tidy_below_file:
  assumes "tidy t" "map_of t p = Some (F c)" "strict_prefix p q"
  shows "map_of t q = None"
proof (rule ccontr)
  assume q: "map_of t q \<noteq> None"
  have "p \<noteq> []" using assms(1,2) tidy_root by fastforce
  then show False using tidy_ancestor [OF assms(1) q assms(3)] assms(2) by simp
qed

lemma parent_ok_mono:
  "parent_ok t q \<Longrightarrow> (\<And>x. map_of t x = Some D \<Longrightarrow> map_of t' x = Some D) \<Longrightarrow> parent_ok t' q"
  by (auto simp add: parent_ok_def path_isdir_def)

lemma tidy_rmtree:
  assumes "tidy t"
  shows "tidy (filter (\<lambda>(q, k). \<not> prefix p q) t)"
proof (rule tidyI)
  fix q k
  assume "(q, k) \<in> set (filter (\<lambda>(q, k). \<not> prefix p q) t)"
  then have in_t: "(q, k) \<in> set t" and np: "\<not> prefix p q" by auto
  have ne: "q \<noteq> []" and par: "parent_ok t q" using tidyD [OF assms in_t] by auto
  have "\<not> prefix p (butlast q)"
    using np ne by (metis append_butlast_last_id prefix_prefix)
  then show "q \<noteq> [] \<and> parent_ok (filter (\<lambda>(q, k). \<not> prefix p q) t) q"
    using ne par by (auto simp add: parent_ok_def path_isdir_def map_of_filter_key)
qed

lemma tidy_remove:
  assumes "tidy t" "\<not> path_isdir t p"
  shows "tidy (filter (\<lambda>(q, k). q \<noteq> p) t)"
proof (rule tidyI)
  fix q k
  assume "(q, k) \<in> set (filter (\<lambda>(q, k). q \<noteq> p) t)"
  then have in_t: "(q, k) \<in> set t" by auto
  have ne: "q \<noteq> []" and par: "parent_ok t q" using tidyD [OF assms(1) in_t] by auto
  show "q \<noteq> [] \<and> parent_ok (filter (\<lambda>(q, k). q \<noteq> p) t) q"
    using ne par assms(2) by (auto simp add: parent_ok_def path_isdir_def map_of_filter_key)
qed

lemma tidy_append:
  assumes "tidy t" "\<And>q k. (q, k) \<in> set adds \<Longrightarrow> q \<noteq> [] \<and> parent_ok (t @ adds) q"
  shows "tidy (t @ adds)"
proof (rule tidyI)
  fix q k
  assume "(q, k) \<in> set (t @ adds)"
  then consider "(q, k) \<in> set t" | "(q, k) \<in> set adds" by auto
  then show "q \<noteq> [] \<and> parent_ok (t @ adds) q"
  proof cases
    case 1
    then have "q \<noteq> []" "parent_ok t q" using tidyD [OF assms(1)] by auto
    then show ?thesis by (auto intro: parent_ok_mono simp add: map_add_def)
  next
    case 2
    then show ?thesis using assms(2) by blast
  qed
qed

lemma set_update_subset: "set (AList.update p k t) \<subseteq> insert (p, k) (set t)"
  by (induction t) auto

lemma tidy_update:
  assumes "tidy t" "p \<noteq> []" "parent_ok t p" "k = D \<or> \<not> path_isdir t p"
  shows "tidy (AList.update p k t)"
proof (rule tidyI)
  fix q k'
  assume "(q, k') \<in> set (AList.update p k t)"
  then consider "(q, k') \<in> set t" | "q = p" using set_update_subset by fastforce
  then show "q \<noteq> [] \<and> parent_ok (AList.update p k t) q"
  proof cases
    case 1
    then have ne: "q \<noteq> []" and par: "parent_ok t q" using tidyD [OF assms(1)] by auto
    show ?thesis using ne par assms(4)
      by (auto simp add: parent_ok_def path_isdir_def AList.update_conv')
  next
    case 2
    have "butlast p \<noteq> p" using assms(2) by (metis append_butlast_last_id append_self_conv list.distinct(1))
    then show ?thesis using 2 assms(2,3)
      by (auto simp add: parent_ok_def path_isdir_def AList.update_conv')
  qed
qed


lemma copied_entries_copies: "copied_entries t src dst = missing_dirs t dst @ copies t src dst"
  by (simp add: copied_entries_def copies_def)

lemma map_of_copies_inside:
  "map_of (copies t src dst) (dst @ r) = (if r = [] then None else map_of t (src @ r))"
proof (induction t)
  case Nil
  show ?case by (simp add: copies_def)
next
  case (Cons e t)
  obtain q k where e: "e = (q, k)" by (cases e)
  show ?case
  proof (cases "strict_prefix src q")
    case True
    then obtain r' where r': "q = src @ r'" "r' \<noteq> []"
      by (auto simp add: strict_prefix_def prefix_def)
    show ?thesis using Cons r' e by (auto simp add: copies_def strict_prefix_def)
  next
    case False
    then have "q \<noteq> src @ r" if "r \<noteq> []" using that by (auto simp add: strict_prefix_def)
    then show ?thesis using Cons False e by (auto simp add: copies_def)
  qed
qed

lemma map_of_copies_outside: "\<not> prefix dst x \<Longrightarrow> map_of (copies t src dst) x = None"
  by (intro map_of_None_keys) (auto simp add: copies_def)

lemma map_of_missing_dirs:
  "map_of (missing_dirs t p) q = (if prefix q p \<and> q \<noteq> [] \<and> map_of t q = None then Some D else None)"
proof (cases "prefix q p \<and> q \<noteq> [] \<and> map_of t q = None")
  case True
  then have "(q, D) \<in> set (missing_dirs t p)"
    by (auto simp add: missing_dirs_def set_tl_prefixes)
  then obtain k where "map_of (missing_dirs t p) q = Some k"
    by (meson weak_map_of_SomeI)
  then show ?thesis using True by (auto dest!: map_of_SomeD missing_dirs_keys)
next
  case False
  then have "map_of (missing_dirs t p) q = None"
    by (intro map_of_None_keys) (auto dest!: missing_dirs_keys)
  then show ?thesis using False by simp
qed

lemma blocked_iff:
  "blocked t p = (\<exists>q c. prefix q p \<and> q \<noteq> [] \<and> map_of t q = Some (F c))"
proof
  assume "blocked t p"
  then obtain q where q: "q \<in> set (tl (prefixes p))"
    "(case map_of t q of Some (F c) \<Rightarrow> True | _ \<Rightarrow> False)"
    by (auto simp add: blocked_def list_ex_iff)
  from q(2) obtain c where "map_of t q = Some (F c)"
    by (cases "map_of t q") (auto split: kind.splits)
  then show "\<exists>q c. prefix q p \<and> q \<noteq> [] \<and> map_of t q = Some (F c)"
    using q(1) by (auto simp add: set_tl_prefixes)
next
  assume "\<exists>q c. prefix q p \<and> q \<noteq> [] \<and> map_of t q = Some (F c)"
  then obtain q c where "prefix q p" "q \<noteq> []" "map_of t q = Some (F c)" by blast
  then show "blocked t p"
    by (auto simp add: blocked_def list_ex_iff set_tl_prefixes intro!: bexI [of _ q])
qed

lemma tidy_makedirs:
  assumes "tidy t" "\<not> blocked t p"
  shows "tidy (t @ missing_dirs t p)"
proof (rule tidy_append [OF assms(1)])
  fix q k
  assume "(q, k) \<in> set (missing_dirs t p)"
  then have q: "prefix q p" "q \<noteq> []" "map_of t q = None" by (auto dest!: missing_dirs_keys)
  have "map_of (t @ missing_dirs t p) (butlast q) = Some D" if b: "butlast q \<noteq> []"
  proof -
    have pb: "prefix (butlast q) p" using q(1) by (meson prefix_order.trans prefixeq_butlast)
    show ?thesis
    proof (cases "map_of t (butlast q)")
      case None
      then show ?thesis using pb b by (simp add: map_add_def map_of_missing_dirs)
    next
      case (Some k')
      then have "k' = D" using assms(2) pb b by (cases k') (auto simp add: blocked_iff)
      then show ?thesis using Some by (simp add: map_add_def)
    qed
  qed
  then show "q \<noteq> [] \<and> parent_ok (t @ missing_dirs t p) q"
    using q(2) by (auto simp add: parent_ok_def path_isdir_def)
qed

lemma tidy_copytree:
  assumes t: "tidy t" and src: "path_isdir t src" and dst: "\<not> path_exists t dst" "dst \<noteq> []"
    and nb: "\<not> blocked t dst"
  shows "tidy (t @ copied_entries t src dst)"
proof -
  let ?t1 = "t @ missing_dirs t dst"
  have t1: "tidy ?t1" by (rule tidy_makedirs [OF t nb])
  have d1: "map_of ?t1 dst = Some D"
    using dst by (simp add: map_add_def map_of_missing_dirs path_exists_def)
  have below: "map_of ?t1 (dst @ r) = None" if "r \<noteq> []" for r
  proof -
    have "map_of t (dst @ r) = None"
      using tidy_below_missing [OF t _ dst(2), of "dst @ r"] dst(1) by (simp add: path_exists_def)
    then show ?thesis using that by (simp add: map_add_def map_of_missing_dirs)
  qed
  have "tidy (?t1 @ copies t src dst)"
  proof (rule tidy_append [OF t1])
    fix q k
    assume "(q, k) \<in> set (copies t src dst)"
    then obtain q0 where q0: "(q0, k) \<in> set t" "strict_prefix src q0" "q = dst @ drop (length src) q0"
      by (auto simp add: copies_def)
    then obtain r where r: "q0 = src @ r" "r \<noteq> []"
      by (auto simp add: strict_prefix_def prefix_def)
    have q: "q = dst @ r" using q0 r by simp
    have "map_of (?t1 @ copies t src dst) (butlast q) = Some D"
    proof (cases "butlast r = []")
      case True
      then have "butlast q = dst" using q r by (simp add: butlast_append)
      then show ?thesis using d1 dst(1)
        by (simp add: map_add_def path_exists_def map_of_missing_dirs)
    next
      case False
      have bq: "butlast q = dst @ butlast r" using q r by (simp add: butlast_append)
      have "butlast q0 = src @ butlast r" using r by (simp add: butlast_append)
      moreover have "butlast q0 \<noteq> []" using r False by (simp add: butlast_append)
      moreover have "map_of t q0 \<noteq> None" using q0(1) by (metis weak_map_of_SomeI option.distinct(1))
      ultimately have "map_of t (src @ butlast r) = Some D"
        using tidy_parent [OF t, of q0] by simp
      then show ?thesis
        using below [OF False] False unfolding bq
        by (simp add: map_add_def map_of_copies_inside split: option.splits)
    qed
    moreover have "butlast q \<noteq> []" using q r dst(2) by (simp add: butlast_append)
    ultimately show "q \<noteq> [] \<and> parent_ok (?t1 @ copies t src dst) q"
      using q dst(2) by (auto simp add: parent_ok_def path_isdir_def)
  qed
  then show ?thesis by (simp add: copied_entries_copies)
qed

lemma keeps_ret: "keeps I (ret x)"
  by (simp add: keeps_def ret_def)

lemma keeps_raise: "keeps I (raise e)"
  by (simp add: keeps_def raise_def)

lemma keeps_say: "keeps I (say m)"
  by (simp add: keeps_def say_def logev_def)

lemma keeps_bnd: "keeps I m \<Longrightarrow> (\<And>x. keeps I (f x)) \<Longrightarrow> keeps I (bnd m f)"
  unfolding keeps_def bnd_def
  by (auto split: prod.splits sum.splits)

lemma keeps_if: "keeps I m \<Longrightarrow> keeps I m' \<Longrightarrow> keeps I (\<lambda>w. if c w then m w else m' w)"
  by (simp add: keeps_def)

lemma keeps_try_except: "keeps I m \<Longrightarrow> (\<And>e. keeps I (h e)) \<Longrightarrow> keeps I (try_except m h)"
  unfolding keeps_def try_except_def
  by (auto split: prod.splits sum.splits)

lemma keeps_try_finally: "keeps I m \<Longrightarrow> keeps I c \<Longrightarrow> keeps I (try_finally m c)"
  unfolding keeps_def try_finally_def
  by (auto split: prod.splits sum.splits)

lemma keeps_os_listdir: "keeps I (os_listdir env p)"
  by (simp add: keeps_def os_listdir_def)

lemma keeps_zipfile_open: "keeps I (zipfile_open env p)"
  by (simp add: keeps_def zipfile_open_def split: option.splits kind.splits)

lemma keeps_requests_get: "keeps I (requests_get env url)"
  by (simp add: keeps_def requests_get_def ret_def raise_def split: option.splits)

lemma keeps_raise_for_status: "keeps I (raise_for_status r)"
  by (simp add: keeps_def raise_for_status_def ret_def raise_def)

lemma keeps_parse_total: "keeps I (parse_total r)"
  by (simp add: keeps_def parse_total_def ret_def raise_def split: option.splits)

lemma keeps_say_total: "keeps I (say_total tot m other)"
  by (simp add: keeps_def say_total_def say_def ret_def logev_def split: option.splits)

lemma keeps_say_backup: "keeps I (say_backup backup m)"
  by (simp add: keeps_def say_backup_def say_def ret_def logev_def split: option.splits)

lemma tidy_os_makedirs: "keeps tidy (os_makedirs env p)"
  by (simp add: keeps_def os_makedirs_def logev_def tidy_makedirs)

lemma tidy_shutil_rmtree: "nofail env \<Longrightarrow> keeps tidy (shutil_rmtree env p)"
  by (simp add: keeps_def shutil_rmtree_def logev_def tidy_rmtree nofail_def)

lemma tidy_rmtree_ignore_errors: "nofail env \<Longrightarrow> keeps tidy (rmtree_ignore_errors env p)"
  by (simp add: keeps_def rmtree_ignore_errors_def shutil_rmtree_def logev_def tidy_rmtree nofail_def)

lemma tidy_os_remove: "keeps tidy (os_remove env p)"
  by (simp add: keeps_def os_remove_def logev_def tidy_remove)

lemma tidy_shutil_copytree: "nofail env \<Longrightarrow> keeps tidy (shutil_copytree env s d)"
  by (simp add: keeps_def shutil_copytree_def logev_def tidy_copytree nofail_def)

lemma tidy_shutil_copy2: "d \<noteq> [] \<Longrightarrow> keeps tidy (shutil_copy2 env s d)"
  by (auto simp add: keeps_def shutil_copy2_def logev_def Let_def join_def
      intro!: tidy_update split: option.splits kind.splits)

lemma tidy_tempfile_mkdtemp: "keeps tidy (tempfile_mkdtemp env)"
  by (auto simp add: keeps_def tempfile_mkdtemp_def logev_def Let_def join_def parent_ok_def
      path_isdir_def map_add_def intro!: tidy_append)

lemma tidy_os_mkdir: "p \<noteq> [] \<Longrightarrow> keeps tidy (os_mkdir env p)"
proof -
  assume p: "p \<noteq> []"
  have "tidy (t @ [(p, D)])" if "tidy t" "parent_ok t p" for t
  proof (rule tidy_append [OF that(1)])
    fix q k
    assume "(q, k) \<in> set [(p, D)]"
    then have "q = p" by simp
    moreover have "parent_ok (t @ [(p, D)]) p"
      by (rule parent_ok_mono [OF that(2)]) (simp add: map_add_def)
    ultimately show "q \<noteq> [] \<and> parent_ok (t @ [(p, D)]) q" using p by simp
  qed
  then show ?thesis by (simp add: keeps_def os_mkdir_def logev_def)
qed

lemma tidy_open_wb: "p \<noteq> [] \<Longrightarrow> keeps tidy (open_wb env p)"
  by (auto simp add: keeps_def open_wb_def logev_def intro!: tidy_update)

lemma tidy_file_write: "keeps tidy (file_write env p n c)"
proof -
  have "tidy (AList.update p (F (c0 @ c)) t)" if "tidy t" "map_of t p = Some (F c0)" for t c0
  proof (rule tidy_update [OF that(1)])
    have "(p, F c0) \<in> set t" using that(2) by (rule map_of_SomeD)
    then show "p \<noteq> []" "parent_ok t p" using tidyD [OF that(1)] by auto
    show "F (c0 @ c) = D \<or> \<not> path_isdir t p" using that(2) by (simp add: path_isdir_def)
  qed
  then show ?thesis
    by (auto simp add: keeps_def file_write_def logev_def split: option.splits kind.splits)
qed

lemma tidy_remove_entry: "nofail env \<Longrightarrow> keeps tidy (remove_entry env p)"
  unfolding remove_entry_def
  by (intro keeps_try_except keeps_if tidy_shutil_rmtree tidy_os_remove keeps_say)

lemma tidy_clear_entries: "nofail env \<Longrightarrow> keeps tidy (clear_entries env folder names)"
  by (induction names) (auto intro!: keeps_ret keeps_bnd tidy_remove_entry)

lemma tidy_clear_folder_contents: "nofail env \<Longrightarrow> keeps tidy (clear_folder_contents env folder)"
  unfolding clear_folder_contents_def
  by (intro keeps_if keeps_bnd keeps_say tidy_os_makedirs keeps_os_listdir tidy_clear_entries)

lemma tidy_make_backup: "nofail env \<Longrightarrow> keeps tidy (make_backup env folder)"
  unfolding make_backup_def Let_def
  by (intro keeps_if keeps_bnd keeps_say keeps_ret tidy_shutil_copytree)

lemma tidy_write_chunks: "keeps tidy (write_chunks env p tot cs d)"
  by (induction cs arbitrary: d) (auto intro!: keeps_ret keeps_bnd tidy_file_write keeps_say_total)

lemma tidy_download_zip: "p \<noteq> [] \<Longrightarrow> keeps tidy (download_zip env url p)"
  unfolding download_zip_def
  by (auto intro!: keeps_ret keeps_raise keeps_bnd keeps_say keeps_requests_get
      keeps_raise_for_status keeps_parse_total tidy_open_wb tidy_write_chunks keeps_say_total)

lemma tidy_extract_member: "dest \<noteq> [] \<Longrightarrow> keeps tidy (extract_member env dest member)"
  unfolding extract_member_def Let_def write_member_def
  by (cases "snd member")
     (auto intro!: keeps_ret keeps_raise keeps_bnd keeps_if tidy_os_makedirs tidy_os_mkdir
       tidy_open_wb tidy_file_write)

lemma tidy_extractall: "dest \<noteq> [] \<Longrightarrow> keeps tidy (extractall env dest members)"
  by (induction members) (auto intro!: keeps_ret keeps_bnd tidy_extract_member)

lemma tidy_extract_zip: "dest \<noteq> [] \<Longrightarrow> keeps tidy (extract_zip env z dest)"
  unfolding extract_zip_def
  by (intro keeps_ret keeps_bnd keeps_say keeps_zipfile_open tidy_extractall)

lemma tidy_remove_existing: "nofail env \<Longrightarrow> keeps tidy (remove_existing env p)"
  unfolding remove_existing_def
  by (intro keeps_try_except keeps_if tidy_shutil_rmtree tidy_os_remove keeps_say keeps_ret)

lemma tidy_copy_entries:
  "nofail env \<Longrightarrow> keeps tidy (copy_entries env src_root dst_root names applied)"
proof (induction names arbitrary: applied)
  case Nil
  show ?case by (simp add: keeps_ret)
next
  case (Cons n names)
  show ?case
    unfolding copy_entries.simps Let_def
    by (intro keeps_if keeps_bnd keeps_try_except keeps_say tidy_remove_existing
        tidy_shutil_copytree tidy_shutil_copy2 Cons.IH Cons.prems) (simp add: join_def)
qed

lemma tidy_copy_top_level_folders:
  "nofail env \<Longrightarrow> keeps tidy (copy_top_level_folders env src_root dst_root)"
  unfolding copy_top_level_folders_def
  by (intro keeps_bnd keeps_os_listdir tidy_copy_entries)

lemma tidy_apply_steps: "nofail env \<Longrightarrow> keeps tidy (apply_steps env target url backup tmpdir)"
  unfolding apply_steps_def Let_def
  by (intro keeps_bnd keeps_say keeps_say_backup tidy_download_zip tidy_extract_zip
      tidy_copy_top_level_folders) (simp_all add: join_def)

lemma tidy_apply_action: "nofail env \<Longrightarrow> keeps tidy (apply_action env target patch)"
  unfolding apply_action_def
  by (intro keeps_bnd keeps_say keeps_say_backup tidy_make_backup tidy_clear_folder_contents
      tidy_tempfile_mkdtemp keeps_try_finally keeps_try_except tidy_apply_steps
      tidy_rmtree_ignore_errors)

lemma tidy_clear_action: "nofail env \<Longrightarrow> keeps tidy (clear_action env target)"
  unfolding clear_action_def
  by (intro keeps_bnd keeps_say keeps_say_backup tidy_make_backup tidy_clear_folder_contents)

lemma tidy_create_missing: "keeps tidy (create_missing env target)"
  unfolding create_missing_def
  by (intro keeps_if keeps_bnd keeps_say keeps_ret tidy_os_makedirs)

lemma tidy_body: "nofail env \<Longrightarrow> keeps tidy (body env target action)"
  unfolding body_def
  by (auto intro!: tidy_clear_action tidy_apply_action keeps_say split: option.splits)

lemma tidy_main:
  assumes "nofail env" "tidy (tab w)"
  shows "tidy (tab (snd (main env l1 l2 w)))"
proof -
  have k: "keeps tidy (bnd (create_missing env (chosen env l1))
             (\<lambda>_. body env (chosen env l1) (py_strip l2)))"
    by (intro keeps_bnd tidy_create_missing tidy_body assms(1))
  have "tidy (tab (logev (Out MsgMenu)
              (logev (Out (MsgTarget (chosen env l1))) (logev (Out MsgBanner) w))))"
    using assms(2) by (simp add: logev_def)
  then show ?thesis
    using k assms(2) unfolding main_unfold keeps_def by (simp add: logev_def)
qed

lemma remove_entry_frame:
  "\<not> prefix p q \<Longrightarrow> map_of (tab (snd (remove_entry env p w))) q = map_of (tab w) q"
  by (auto simp add: remove_entry_def try_except_def say_def logev_def
      shutil_rmtree_def os_remove_def map_of_filter_key split: prod.splits sum.splits)

lemma clear_entries_frame:
  "(\<And>n. \<not> prefix (join folder n) q) \<Longrightarrow>
   map_of (tab (snd (clear_entries env folder names w))) q = map_of (tab w) q"
proof (induction names arbitrary: w)
  case Nil
  show ?case by (simp add: ret_def)
next
  case (Cons n names)
  obtain w1 where w1: "remove_entry env (join folder n) w = (Inr (), w1)"
    using remove_entry_returns by blast
  have "\<not> prefix (join folder n) q" by (rule Cons.prems)
  then have "map_of (tab (snd (remove_entry env (join folder n) w))) q = map_of (tab w) q"
    by (rule remove_entry_frame)
  then have "map_of (tab w1) q = map_of (tab w) q" using w1 by simp
  then show ?case using Cons.IH [OF Cons.prems, of w1] w1 by (simp add: bnd_def)
qed

lemma listed:
  assumes "map_of t (join p n) \<noteq> None"
  shows "n \<in> set (listdir_names t p)"
proof -
  from assms obtain k where "(join p n, k) \<in> set t" by (auto dest: map_of_SomeD)
  then have "(join p n, k) \<in> set (filter (\<lambda>(q, k). q \<noteq> [] \<and> butlast q = p) t)"
    by (simp add: join_def)
  then have "(last \<circ> fst) (join p n, k) \<in> set (listdir_names t p)"
    unfolding listdir_names_def by (metis (no_types, lifting) image_eqI list.set_map)
  then show ?thesis by (simp add: join_def)
qed

lemma clear_empties:
  assumes nf: "nofail env" and t: "tidy (tab w)" and d: "path_isdir (tab w) target"
  shows "\<exists>w'. clear_folder_contents env target w = (Inr (), w') \<and>
           (\<forall>r. r \<noteq> [] \<longrightarrow> map_of (tab w') (target @ r) = None) \<and>
           (\<forall>q. \<not> strict_prefix target q \<longrightarrow> map_of (tab w') q = map_of (tab w) q) \<and>
           tidy (tab w')"
proof -
  define w0 where "w0 = logev (Out MsgClearing) w"
  define names where "names = listdir_names (tab w) target"
  have t0: "tab w0 = tab w" by (simp add: w0_def logev_def)
  obtain w1 where w1: "clear_entries env target names w0 = (Inr (), w1)"
    using clear_entries_returns by blast
  define w' where "w' = logev (Out MsgFolderCleared) w1"
  have t': "tab w' = tab w1" by (simp add: w'_def logev_def)
  have run: "clear_folder_contents env target w = (Inr (), w')"
    using d nf w1
    by (simp add: clear_folder_contents_def bnd_def say_def os_listdir_def w0_def names_def
        t0 logev_def w'_def path_exists_def path_isdir_def nofail_def)
  have tidy1: "tidy (tab w1)"
    using tidy_clear_entries [OF nf, of target names] t t0 w1 unfolding keeps_def
    by (metis snd_conv)
  have frame: "map_of (tab w1) q = map_of (tab w) q" if "\<not> strict_prefix target q" for q
  proof -
    have "\<not> prefix (join target n) q" for n
      using that by (auto simp add: join_def strict_prefix_def dest: append_prefixD)
    then show ?thesis using clear_entries_frame [of target q env names w0] w1 t0 by simp
  qed
  have empty: "map_of (tab w1) (target @ r) = None" if rne: "r \<noteq> []" for r
  proof (rule ccontr)
    assume ex: "map_of (tab w1) (target @ r) \<noteq> None"
    obtain n rest where r: "r = n # rest" using rne by (cases r) auto
    have pre: "prefix (join target n) (target @ r)" by (simp add: r join_def)
    have c1: "map_of (tab w1) (join target n) \<noteq> None"
      using tidy_below_missing [OF tidy1 _ _ pre] ex by (auto simp add: join_def)
    have "map_of (tab w1) (join target n) = None \<or>
          map_of (tab w1) (join target n) = map_of (tab w0) (join target n)"
      using clear_entries_only_deletes [of env target names w0 "join target n"] w1 by simp
    then have c0: "map_of (tab w) (join target n) \<noteq> None" using c1 t0 by auto
    then have "n \<in> set names" unfolding names_def by (rule listed)
    moreover have "removable env (tab w0) (join target n)"
      using nf by (simp add: removable_def nofail_def)
    ultimately have "map_of (tab w1) (join target n) = None"
      using clear_entries_removes [of n names env w0 target] w1 by simp
    then show False using c1 by simp
  qed
  show ?thesis using run empty frame tidy1 t' by auto
qed

lemma keepsD: "keeps I m \<Longrightarrow> I (tab w) \<Longrightarrow> I (tab (snd (m w)))"
  by (simp add: keeps_def)

lemma not_blocked_child:
  assumes t: "tidy t" and d: "path_isdir t p" and n: "\<forall>c. map_of t (join p n) \<noteq> Some (F c)"
  shows "\<not> blocked t (join p n)"
proof
  assume "blocked t (join p n)"
  then obtain q c where q: "prefix q (p @ [n])" "q \<noteq> []" "map_of t q = Some (F c)"
    by (auto simp add: blocked_iff join_def)
  from q(1) consider "q = p @ [n]" | "q = p" | "strict_prefix q p"
    by (auto simp add: prefix_snoc strict_prefix_def)
  then show False
  proof cases
    case 1
    then show ?thesis using n q(3) by (simp add: join_def)
  next
    case 2
    then show ?thesis using d q(3) by (simp add: path_isdir_def)
  next
    case 3
    have "map_of t p \<noteq> None" using d by (simp add: path_isdir_def)
    then have "map_of t q = Some D" using tidy_ancestor [OF t _ 3 q(2)] by simp
    then show ?thesis using q(3) by simp
  qed
qed

lemma remove_existing_dir_gone:
  assumes nf: "nofail env" and t: "tidy (tab w)" and p: "p \<noteq> []"
    and k: "map_of (tab w) p = None \<or> map_of (tab w) p = Some D"
  shows "map_of (tab (snd (remove_existing env p w))) (p @ r) = None"
  using k
proof
  assume n: "map_of (tab w) p = None"
  then have "remove_existing env p w = (Inr (), w)"
    by (simp add: remove_existing_def path_exists_def ret_def)
  moreover have "map_of (tab w) (p @ r) = None"
    using tidy_below_missing [OF t n p] by simp
  ultimately show ?thesis by simp
next
  assume d: "map_of (tab w) p = Some D"
  then show ?thesis using nf
    by (simp add: remove_existing_def path_exists_def try_except_def path_isdir_def
        shutil_rmtree_def nofail_def logev_def map_of_filter_key)
qed

lemma merged_step:
  assumes J: "merged t src dst S" and ap: "apart src dst"
    and fr: "\<And>q. \<not> prefix (join dst n) q \<Longrightarrow> \<not> prefix q (join dst n) \<Longrightarrow> map_of t' q = map_of t q"
    and new: "\<And>rest. map_of t' (dst @ n # rest) = map_of t (src @ n # rest)"
  shows "merged t' src dst (insert n S)"
  unfolding merged_def
proof (intro allI)
  fix m rest
  have s: "map_of t' (src @ m # rest) = map_of t (src @ m # rest)"
    using apart_src [OF ap, of "src @ m # rest" n] by (intro fr) auto
  show "map_of t' (dst @ m # rest) =
        (if m \<in> insert n S then map_of t' (src @ m # rest) else None)"
  proof (cases "m = n")
    case True
    then show ?thesis using new [of rest] s by simp
  next
    case False
    then have "map_of t' (dst @ m # rest) = map_of t (dst @ m # rest)"
      by (intro fr) (auto simp add: join_def)
    then show ?thesis using J False s by (simp add: merged_def)
  qed
qed

lemma merge_dir_step:
  assumes nf: "nofail env" and t: "tidy (tab w)" and ap: "apart src dst"
    and dd: "path_isdir (tab w) dst" and J: "merged (tab w) src dst S"
    and sn: "map_of (tab w) (join src n) = Some D"
  shows "\<exists>w1 w2. remove_existing env (join dst n) w = (Inr (), w1) \<and>
           shutil_copytree env (join src n) (join dst n) w1 = (Inr (), w2) \<and>
           tidy (tab w2) \<and> path_isdir (tab w2) dst \<and> merged (tab w2) src dst (insert n S) \<and>
           (\<forall>q. prefix src q \<longrightarrow> map_of (tab w2) q = map_of (tab w) q)"
proof -
  let ?s = "join src n" and ?d = "join dst n"
  obtain w1 where w1: "remove_existing env ?d w = (Inr (), w1)"
    using remove_existing_returns by blast
  have t1: "tidy (tab w1)"
    using keepsD [OF tidy_remove_existing [OF nf] t, of ?d] w1 by simp
  have "map_of (tab w) ?d = None \<or> map_of (tab w) ?d = Some D"
    using J [unfolded merged_def, rule_format, of n "[]"] sn by (auto simp add: join_def)
  then have gone: "map_of (tab w1) (?d @ r) = None" for r
    using remove_existing_dir_gone [OF nf t, of ?d r] w1 by (simp add: join_def)
  have kept: "map_of (tab w1) q = map_of (tab w) q" if "\<not> prefix ?d q" for q
    using remove_existing_frame [OF that, of env w] w1 by simp
  have ns: "\<not> prefix ?d q" "\<not> prefix q ?d" if "prefix src q" for q
    using apart_src [OF ap that, of n] by auto
  have s1: "path_isdir (tab w1) ?s"
    using kept [of ?s] ns(1) [of ?s] sn by (simp add: path_isdir_def join_def)
  have d1: "path_isdir (tab w1) dst"
    using kept [of dst] dd by (simp add: path_isdir_def join_def)
  have nb: "\<not> blocked (tab w1) ?d"
    using not_blocked_child [OF t1 d1, of n] gone [of "[]"] by simp
  define w2 where "w2 = logev (Ev (Copytree ?s ?d) True)
      (w1\<lparr>tab := tab w1 @ copied_entries (tab w1) ?s ?d\<rparr>)"
  have run2: "shutil_copytree env ?s ?d w1 = (Inr (), w2)"
    using s1 nb gone [of "[]"] nf
    by (simp add: shutil_copytree_def path_exists_def nofail_def w2_def join_def)
  have tab2: "tab w2 = tab w1 @ missing_dirs (tab w1) ?d @ copies (tab w1) ?s ?d"
    by (simp add: w2_def logev_def copied_entries_copies)
  have t2: "tidy (tab w2)"
    using keepsD [OF tidy_shutil_copytree [OF nf] t1, of ?s ?d] run2 by simp
  have fr: "map_of (tab w2) q = map_of (tab w) q" if "\<not> prefix ?d q" "\<not> prefix q ?d" for q
    using shutil_copytree_frame [of ?d q w1 env ?s] that kept [of q] run2 by simp
  have new: "map_of (tab w2) (dst @ n # rest) = map_of (tab w) (src @ n # rest)" for rest
  proof (cases "rest = []")
    case True
    have "?d \<noteq> []" by (simp add: join_def)
    then have "map_of (tab w2) ?d = Some D"
      using gone [of "[]"] by (simp add: tab2 map_add_def map_of_missing_dirs)
    then show ?thesis using True sn by (simp add: join_def)
  next
    case False
    have q: "dst @ n # rest = ?d @ rest" by (simp add: join_def)
    have "\<not> prefix (?d @ rest) ?d" "?d \<noteq> []" using False by (simp_all add: prefix_def join_def)
    then have "map_of (tab w2) (?d @ rest) = map_of (tab w1) (?s @ rest)"
      using gone [of rest] False
      by (simp add: tab2 map_add_def map_of_missing_dirs map_of_copies_inside)
    also have "\<dots> = map_of (tab w) (?s @ rest)"
      using kept [of "?s @ rest"] ns(1) [of "?s @ rest"] by (simp add: join_def)
    finally show ?thesis by (simp add: join_def)
  qed
  have m2: "merged (tab w2) src dst (insert n S)"
    using merged_step [OF J ap fr new] .
  have d2: "path_isdir (tab w2) dst"
    using d1 by (simp add: tab2 path_isdir_def map_add_def)
  have "\<forall>q. prefix src q \<longrightarrow> map_of (tab w2) q = map_of (tab w) q"
    using fr ns by blast
  then show ?thesis using w1 run2 t2 d2 m2 by blast
qed


lemma merge_file_step:
  assumes nf: "nofail env" and t: "tidy (tab w)" and ap: "apart src dst"
    and dd: "path_isdir (tab w) dst" and J: "merged (tab w) src dst S"
    and sn: "map_of (tab w) (join src n) \<noteq> Some D"
  shows "\<exists>w'. try_except (bnd (shutil_copy2 env (join src n) (join dst n))
                   (\<lambda>_. say (MsgCopiedFile n))) (\<lambda>e. say (MsgSkipped n)) w = (Inr (), w') \<and>
           tidy (tab w') \<and> path_isdir (tab w') dst \<and> merged (tab w') src dst (insert n S) \<and>
           (\<forall>q. prefix src q \<longrightarrow> map_of (tab w') q = map_of (tab w) q)"
proof -
  let ?s = "join src n" and ?d = "join dst n"
  let ?m = "try_except (bnd (shutil_copy2 env ?s ?d) (\<lambda>_. say (MsgCopiedFile n)))
              (\<lambda>e. say (MsgSkipped n))"
  obtain w' where w': "?m w = (Inr (), w')" using copy_file_returns by blast
  have dn: "map_of (tab w) ?d = (if n \<in> S then map_of (tab w) ?s else None)"
    using J [unfolded merged_def, rule_format, of n "[]"] by (simp add: join_def)
  have nd: "\<not> path_isdir (tab w) ?d" using dn sn by (simp add: path_isdir_def)
  have ns: "\<not> prefix ?d q" "\<not> prefix q ?d" if "prefix src q" for q
    using apart_src [OF ap that, of n] by auto
  have fr: "map_of (tab w') q = map_of (tab w) q" if "\<not> prefix ?d q" for q
    using copy_file_frame [OF that, of env ?s n w] w' by simp
  have par: "parent_ok (tab w) ?d" using dd by (simp add: parent_ok_def join_def)
  have below: "map_of (tab w) (src @ n # rest) = None" if "rest \<noteq> []" for rest
  proof (cases "map_of (tab w) ?s")
    case None
    have "prefix ?s (src @ n # rest)" by (simp add: join_def)
    then show ?thesis using tidy_below_missing [OF t None] by (simp add: join_def)
  next
    case (Some k)
    then obtain c where c: "map_of (tab w) ?s = Some (F c)" using sn by (cases k) auto
    have "strict_prefix ?s (src @ n # rest)" using that by (auto simp add: join_def strict_prefix_def)
    then show ?thesis using tidy_below_file [OF t c] by simp
  qed
  have tab': "tab w' = (case map_of (tab w) ?s of
                 Some (F c) \<Rightarrow> AList.update ?d (F c) (tab w) | _ \<Rightarrow> tab w)"
    using w' nd par nf
    by (auto simp add: try_except_def bnd_def shutil_copy2_def say_def logev_def nofail_def
        Let_def split: option.splits kind.splits)
  have t': "tidy (tab w')"
  proof (cases "map_of (tab w) ?s")
    case None
    then show ?thesis using t tab' by simp
  next
    case (Some k)
    then obtain c where c: "map_of (tab w) ?s = Some (F c)" using sn by (cases k) auto
    have "tidy (AList.update ?d (F c) (tab w))"
      using nd par by (intro tidy_update [OF t]) (auto simp add: join_def)
    then show ?thesis using tab' c by simp
  qed
  have new: "map_of (tab w') (dst @ n # rest) = map_of (tab w) (src @ n # rest)" for rest
  proof (cases "rest = []")
    case True
    show ?thesis
    proof (cases "map_of (tab w) ?s")
      case None
      then show ?thesis using True tab' dn by (simp add: join_def)
    next
      case (Some k)
      then obtain c where c: "map_of (tab w) ?s = Some (F c)" using sn by (cases k) auto
      then show ?thesis using True tab' by (simp add: join_def AList.update_conv')
    qed
  next
    case False
    have neq: "dst @ n # rest \<noteq> ?d" using False by (simp add: join_def)
    have "map_of (tab w') (dst @ n # rest) = map_of (tab w) (dst @ n # rest)"
      using tab' neq by (auto simp add: AList.update_conv' split: option.splits kind.splits)
    also have "\<dots> = None"
      using J [unfolded merged_def, rule_format, of n rest] below [OF False] by simp
    finally show ?thesis using below [OF False] by simp
  qed
  have fr2: "map_of (tab w') q = map_of (tab w) q" if "\<not> prefix ?d q" "\<not> prefix q ?d" for q
    using fr that by blast
  have m': "merged (tab w') src dst (insert n S)"
    using merged_step [OF J ap fr2 new] .
  have d': "path_isdir (tab w') dst"
    using fr [of dst] dd by (simp add: path_isdir_def join_def)
  have "\<forall>q. prefix src q \<longrightarrow> map_of (tab w') q = map_of (tab w) q"
    using fr ns by blast
  then show ?thesis using w' t' d' m' by blast
qed

lemma merge_loop:
  assumes nf: "nofail env" and ap: "apart src dst"
  shows "tidy (tab w) \<Longrightarrow> path_isdir (tab w) dst \<Longrightarrow> merged (tab w) src dst S \<Longrightarrow>
     \<exists>res w'. copy_entries env src dst names applied w = (Inr res, w') \<and>
       tidy (tab w') \<and> path_isdir (tab w') dst \<and> merged (tab w') src dst (S \<union> set names) \<and>
       (\<forall>q. prefix src q \<longrightarrow> map_of (tab w') q = map_of (tab w) q)"
proof (induction names arbitrary: w applied S)
  case Nil
  then show ?case by (simp add: ret_def)
next
  case (Cons n names)
  show ?case
  proof (cases "path_isdir (tab w) (join src n)")
    case True
    then have sn: "map_of (tab w) (join src n) = Some D" by (simp add: path_isdir_def)
    obtain w1 w2 where s: "remove_existing env (join dst n) w = (Inr (), w1)"
        "shutil_copytree env (join src n) (join dst n) w1 = (Inr (), w2)"
        "tidy (tab w2)" "path_isdir (tab w2) dst" "merged (tab w2) src dst (insert n S)"
        "\<forall>q. prefix src q \<longrightarrow> map_of (tab w2) q = map_of (tab w) q"
      using merge_dir_step [OF nf Cons.prems(1) ap Cons.prems(2,3) sn] by blast
    define w3 where "w3 = logev (Out (MsgCopiedPack n)) w2"
    have t3: "tab w3 = tab w2" by (simp add: w3_def logev_def)
    obtain res w' where r: "copy_entries env src dst names (applied @ [n]) w3 = (Inr res, w')"
        "tidy (tab w')" "path_isdir (tab w') dst"
        "merged (tab w') src dst (insert n S \<union> set names)"
        "\<forall>q. prefix src q \<longrightarrow> map_of (tab w') q = map_of (tab w3) q"
      using Cons.IH [of w3 "insert n S" "applied @ [n]"] s(3,4,5) t3 by auto
    have "copy_entries env src dst (n # names) applied w = (Inr res, w')"
      using True s(1,2) r(1) by (simp add: bnd_def say_def w3_def Let_def)
    then show ?thesis using r(2,3,4,5) s(6) t3 by auto
  next
    case False
    then have sn: "map_of (tab w) (join src n) \<noteq> Some D" by (simp add: path_isdir_def)
    obtain w1 where s: "try_except (bnd (shutil_copy2 env (join src n) (join dst n))
                   (\<lambda>_. say (MsgCopiedFile n))) (\<lambda>e. say (MsgSkipped n)) w = (Inr (), w1)"
        "tidy (tab w1)" "path_isdir (tab w1) dst" "merged (tab w1) src dst (insert n S)"
        "\<forall>q. prefix src q \<longrightarrow> map_of (tab w1) q = map_of (tab w) q"
      using merge_file_step [OF nf Cons.prems(1) ap Cons.prems(2,3) sn] by blast
    obtain res w' where r: "copy_entries env src dst names applied w1 = (Inr res, w')"
        "tidy (tab w')" "path_isdir (tab w') dst"
        "merged (tab w') src dst (insert n S \<union> set names)"
        "\<forall>q. prefix src q \<longrightarrow> map_of (tab w') q = map_of (tab w1) q"
      using Cons.IH [of w1 "insert n S" applied] s(2,3,4) by auto
    have "copy_entries env src dst (n # names) applied w = (Inr res, w')"
      using False s(1) r(1) by (simp add: bnd_def Let_def)
    then show ?thesis using r(2,3,4,5) s(5) by auto
  qed
qed

lemma merge_into_empty:
  assumes nf: "nofail env" and t: "tidy (tab w)" and ap: "apart src dst"
    and sd: "path_isdir (tab w) src" and dd: "path_isdir (tab w) dst"
    and em: "\<forall>r. r \<noteq> [] \<longrightarrow> map_of (tab w) (dst @ r) = None"
  shows "\<exists>applied w'. copy_top_level_folders env src dst w = (Inr applied, w') \<and>
           tidy (tab w') \<and>
           (\<forall>r. map_of (tab w') (dst @ r) = (if r = [] then Some D else map_of (tab w) (src @ r)))"
proof -
  define names where "names = listdir_names (tab w) src"
  have J0: "merged (tab w) src dst {}" using em by (simp add: merged_def)
  obtain res w' where r: "copy_entries env src dst names [] w = (Inr res, w')"
      "tidy (tab w')" "path_isdir (tab w') dst" "merged (tab w') src dst ({} \<union> set names)"
      "\<forall>q. prefix src q \<longrightarrow> map_of (tab w') q = map_of (tab w) q"
    using merge_loop [OF nf ap t dd J0, of names "[]"] by blast
  have run: "copy_top_level_folders env src dst w = (Inr res, w')"
    using sd nf r(1)
    by (simp add: copy_top_level_folders_def bnd_def os_listdir_def nofail_def names_def)
  have "map_of (tab w') (dst @ r) = (if r = [] then Some D else map_of (tab w) (src @ r))" for r
  proof (cases r)
    case Nil
    then show ?thesis using r(3) by (simp add: path_isdir_def)
  next
    case (Cons n rest)
    show ?thesis
    proof (cases "n \<in> set names")
      case True
      then have "map_of (tab w') (dst @ n # rest) = map_of (tab w') (src @ n # rest)"
        using r(4) by (simp add: merged_def)
      then show ?thesis using r(5) Cons by simp
    next
      case False
      then have "map_of (tab w) (join src n) = None"
        using listed [of "tab w" src n] unfolding names_def by blast
      moreover have "prefix (join src n) (src @ n # rest)" by (simp add: join_def)
      ultimately have "map_of (tab w) (src @ n # rest) = None"
        using tidy_below_missing [OF t] by (simp add: join_def)
      moreover have "map_of (tab w') (dst @ n # rest) = None"
        using r(4) False by (simp add: merged_def)
      ultimately show ?thesis using Cons by simp
    qed
  qed
  then show ?thesis using run r(2) by blast
qed

lemma simulates_ret: "V x y \<Longrightarrow> simulates a b V (ret x) (ret y)"
  by (simp add: simulates_def ret_def)

lemma simulates_raise: "simulates a b V (raise e) (raise e')"
  by (simp add: simulates_def raise_def)

lemma simulates_say: "simulates a b (=) (say m) (say m')"
  by (simp add: simulates_def say_def logev_def)

lemma simulates_bnd:
  assumes m: "simulates a b V m n" and f: "\<And>x y. V x y \<Longrightarrow> simulates a b U (f x) (g y)"
  shows "simulates a b U (bnd m f) (bnd n g)"
  unfolding simulates_def
proof (intro allI impI)
  fix w v :: world
  assume s: "sim a b (tab w) (tab v)"
  obtain r1 w1 where mw: "m w = (r1, w1)" by (cases "m w")
  obtain r2 v1 where nv: "n v = (r2, v1)" by (cases "n v")
  have s1: "sim a b (tab w1) (tab v1)"
    using m s mw nv unfolding simulates_def by (metis snd_conv)
  have al: "(case r1 of Inl e \<Rightarrow> isl r2 | Inr x \<Rightarrow> (case r2 of Inl e \<Rightarrow> False | Inr y \<Rightarrow> V x y))"
    using m s mw nv unfolding simulates_def by (metis fst_conv)
  show "sim a b (tab (snd (bnd m f w))) (tab (snd (bnd n g v))) \<and>
        (case fst (bnd m f w) of
           Inl e \<Rightarrow> isl (fst (bnd n g v))
         | Inr x \<Rightarrow> (case fst (bnd n g v) of Inl e \<Rightarrow> False | Inr y \<Rightarrow> U x y))"
  proof (cases r1)
    case (Inl e)
    then obtain e' where "r2 = Inl e'" using al by (cases r2) auto
    then have "bnd m f w = (Inl e, w1)" "bnd n g v = (Inl e', v1)"
      using Inl mw nv by (simp_all add: bnd_def)
    then show ?thesis using s1 by simp
  next
    case (Inr x)
    then obtain y where y: "r2 = Inr y" "V x y" using al by (cases r2) auto
    have "simulates a b U (f x) (g y)" using f y(2) .
    moreover have "bnd m f w = f x w1" "bnd n g v = g y v1"
      using Inr y(1) mw nv by (simp_all add: bnd_def)
    ultimately show ?thesis using s1 unfolding simulates_def by metis
  qed
qed

lemma simulates_bnd_eq:
  "simulates a b (=) m n \<Longrightarrow> (\<And>x. simulates a b U (f x) (g x)) \<Longrightarrow>
   simulates a b U (bnd m f) (bnd n g)"
  by (rule simulates_bnd [where V = "(=)"]) auto

lemma simulates_if:
  assumes "\<And>w v. sim a b (tab w) (tab v) \<Longrightarrow> c w = c' v"
    and "simulates a b V m n" and "simulates a b V m' n'"
  shows "simulates a b V (\<lambda>w. if c w then m w else m' w) (\<lambda>v. if c' v then n v else n' v)"
  using assms unfolding simulates_def by auto

lemma sim_map: "sim a b s t \<Longrightarrow> map_of s (a @ r) = map_of t (b @ r)"
  by (simp add: sim_def)

lemma sim_isdir: "sim a b s t \<Longrightarrow> path_isdir s (a @ r) = path_isdir t (b @ r)"
  by (simp add: sim_def path_isdir_def)

lemma sim_exists: "sim a b s t \<Longrightarrow> path_exists s (a @ r) = path_exists t (b @ r)"
  by (simp add: sim_def path_exists_def)

lemma sim_parent_ok:
  assumes "sim a b s t" "r \<noteq> []"
  shows "parent_ok s (a @ r) = parent_ok t (b @ r)"
proof -
  have "a \<noteq> []" "b \<noteq> []" using assms(1) by (auto simp add: sim_def)
  then show ?thesis
    using assms(2) sim_isdir [OF assms(1), of "butlast r"]
    by (simp add: parent_ok_def butlast_append)
qed

lemma simI:
  assumes s: "sim a b s t"
    and r: "\<And>r. map_of s' (a @ r) = map_of t' (b @ r)"
    and ka: "\<And>p. map_of s p = Some D \<Longrightarrow> prefix p a \<Longrightarrow> map_of s' p = Some D"
    and kb: "\<And>p. map_of t p = Some D \<Longrightarrow> prefix p b \<Longrightarrow> map_of t' p = Some D"
  shows "sim a b s' t'"
  using assms unfolding sim_def by auto

lemma sim_update:
  assumes s: "sim a b s t" and r: "r \<noteq> []"
  shows "sim a b (AList.update (a @ r) k s) (AList.update (b @ r) k t)"
proof (rule simI [OF s])
  fix r'
  show "map_of (AList.update (a @ r) k s) (a @ r') = map_of (AList.update (b @ r) k t) (b @ r')"
    using sim_map [OF s, of r'] by (simp add: AList.update_conv')
next
  fix p
  assume "map_of s p = Some D" "prefix p a"
  moreover have "p \<noteq> a @ r" if "prefix p a" using that r by (auto simp add: prefix_def)
  ultimately show "map_of (AList.update (a @ r) k s) p = Some D"
    by (simp add: AList.update_conv')
next
  fix p
  assume "map_of t p = Some D" "prefix p b"
  moreover have "p \<noteq> b @ r" if "prefix p b" using that r by (auto simp add: prefix_def)
  ultimately show "map_of (AList.update (b @ r) k t) p = Some D"
    by (simp add: AList.update_conv')
qed

lemma sim_append1:
  assumes s: "sim a b s t"
  shows "sim a b (s @ [(a @ r, k)]) (t @ [(b @ r, k)])"
proof (rule simI [OF s])
  fix r'
  show "map_of (s @ [(a @ r, k)]) (a @ r') = map_of (t @ [(b @ r, k)]) (b @ r')"
    using sim_map [OF s, of r'] by (simp add: map_add_def split: option.splits)
qed (simp_all add: map_add_def)

lemma sim_makedirs:
  assumes s: "sim a b s t"
  shows "sim a b (s @ missing_dirs s (a @ r)) (t @ missing_dirs t (b @ r))"
proof (rule simI [OF s])
  fix r'
  have "a \<noteq> []" "b \<noteq> []" using s by (auto simp add: sim_def)
  then show "map_of (s @ missing_dirs s (a @ r)) (a @ r') =
        map_of (t @ missing_dirs t (b @ r)) (b @ r')"
    using sim_map [OF s, of r']
    by (simp add: map_add_def map_of_missing_dirs split: option.splits)
qed (simp_all add: map_add_def)

lemma sim_blocked:
  assumes s: "sim a b s t"
  shows "blocked s (a @ r) = blocked t (b @ r)"
proof -
  have gen: "blocked s (a @ r) = (\<exists>r' c. prefix r' r \<and> map_of s (a @ r') = Some (F c))"
    if s: "sim a b s t" for a b :: path and s t
  proof
    assume "blocked s (a @ r)"
    then obtain q c where q: "prefix q (a @ r)" "q \<noteq> []" "map_of s q = Some (F c)"
      by (auto simp add: blocked_iff)
    from q(1) consider "prefix q a" | r' where "q = a @ r'" "prefix r' r"
      by (auto simp add: prefix_append)
    then show "\<exists>r' c. prefix r' r \<and> map_of s (a @ r') = Some (F c)"
    proof cases
      case 1
      then have "map_of s q = Some D" using s q(2) by (simp add: sim_def)
      then show ?thesis using q(3) by simp
    next
      case 2
      then show ?thesis using q(3) by blast
    qed
  next
    assume "\<exists>r' c. prefix r' r \<and> map_of s (a @ r') = Some (F c)"
    then obtain r' c where "prefix r' r" "map_of s (a @ r') = Some (F c)" by blast
    moreover have "a @ r' \<noteq> []" using s by (simp add: sim_def)
    ultimately show "blocked s (a @ r)"
      unfolding blocked_iff by (metis same_prefix_prefix)
  qed
  have s': "sim b a t s" using s by (simp add: sim_def)
  show ?thesis using gen [OF s] gen [OF s'] sim_map [OF s] by simp
qed


lemma simulates_open_wb:
  assumes "nofail e1" "nofail e2" "r \<noteq> []"
  shows "simulates a b (=) (open_wb e1 (a @ r)) (open_wb e2 (b @ r))"
  unfolding simulates_def
proof (intro allI impI)
  fix w v :: world
  assume s: "sim a b (tab w) (tab v)"
  show "sim a b (tab (snd (open_wb e1 (a @ r) w))) (tab (snd (open_wb e2 (b @ r) v))) \<and>
        (case fst (open_wb e1 (a @ r) w) of
           Inl e \<Rightarrow> isl (fst (open_wb e2 (b @ r) v))
         | Inr x \<Rightarrow> (case fst (open_wb e2 (b @ r) v) of Inl e \<Rightarrow> False | Inr y \<Rightarrow> x = y))"
    using assms s sim_isdir [OF s, of r] sim_parent_ok [OF s assms(3)] sim_update [OF s assms(3)]
    by (simp add: open_wb_def nofail_def logev_def)
qed

lemma simulates_file_write:
  assumes "nofail e1" "nofail e2" "r \<noteq> []"
  shows "simulates a b (=) (file_write e1 (a @ r) k c) (file_write e2 (b @ r) k c)"
  unfolding simulates_def
proof (intro allI impI)
  fix w v :: world
  assume s: "sim a b (tab w) (tab v)"
  show "sim a b (tab (snd (file_write e1 (a @ r) k c w))) (tab (snd (file_write e2 (b @ r) k c v))) \<and>
        (case fst (file_write e1 (a @ r) k c w) of
           Inl e \<Rightarrow> isl (fst (file_write e2 (b @ r) k c v))
         | Inr x \<Rightarrow> (case fst (file_write e2 (b @ r) k c v) of Inl e \<Rightarrow> False | Inr y \<Rightarrow> x = y))"
    using assms s sim_map [OF s, of r] sim_update [OF s assms(3)]
    by (simp add: file_write_def nofail_def logev_def split: option.splits kind.splits)
qed

lemma simulates_zipfile_open:
  assumes "nofail e1" "nofail e2" "unzip e1 = unzip e2"
  shows "simulates a b (=) (zipfile_open e1 (a @ r)) (zipfile_open e2 (b @ r))"
  unfolding simulates_def
proof (intro allI impI)
  fix w v :: world
  assume s: "sim a b (tab w) (tab v)"
  show "sim a b (tab (snd (zipfile_open e1 (a @ r) w))) (tab (snd (zipfile_open e2 (b @ r) v))) \<and>
        (case fst (zipfile_open e1 (a @ r) w) of
           Inl e \<Rightarrow> isl (fst (zipfile_open e2 (b @ r) v))
         | Inr x \<Rightarrow> (case fst (zipfile_open e2 (b @ r) v) of Inl e \<Rightarrow> False | Inr y \<Rightarrow> x = y))"
    using assms s sim_map [OF s, of r]
    by (simp add: zipfile_open_def nofail_def split: option.splits kind.splits)
qed

lemma simulates_os_makedirs:
  assumes "nofail e1" "nofail e2"
  shows "simulates a b (=) (os_makedirs e1 (a @ r)) (os_makedirs e2 (b @ r))"
  unfolding simulates_def
proof (intro allI impI)
  fix w v :: world
  assume s: "sim a b (tab w) (tab v)"
  have ne: "a \<noteq> []" "b \<noteq> []" using s by (auto simp add: sim_def)
  show "sim a b (tab (snd (os_makedirs e1 (a @ r) w))) (tab (snd (os_makedirs e2 (b @ r) v))) \<and>
        (case fst (os_makedirs e1 (a @ r) w) of
           Inl e \<Rightarrow> isl (fst (os_makedirs e2 (b @ r) v))
         | Inr x \<Rightarrow> (case fst (os_makedirs e2 (b @ r) v) of Inl e \<Rightarrow> False | Inr y \<Rightarrow> x = y))"
    using assms s ne sim_blocked [OF s, of r] sim_makedirs [OF s, of r]
    by (simp add: os_makedirs_def nofail_def logev_def)
qed

lemma simulates_os_mkdir:
  assumes "nofail e1" "nofail e2" "r \<noteq> []"
  shows "simulates a b (=) (os_mkdir e1 (a @ r)) (os_mkdir e2 (b @ r))"
  unfolding simulates_def
proof (intro allI impI)
  fix w v :: world
  assume s: "sim a b (tab w) (tab v)"
  show "sim a b (tab (snd (os_mkdir e1 (a @ r) w))) (tab (snd (os_mkdir e2 (b @ r) v))) \<and>
        (case fst (os_mkdir e1 (a @ r) w) of
           Inl e \<Rightarrow> isl (fst (os_mkdir e2 (b @ r) v))
         | Inr x \<Rightarrow> (case fst (os_mkdir e2 (b @ r) v) of Inl e \<Rightarrow> False | Inr y \<Rightarrow> x = y))"
    using assms s sim_exists [OF s, of r] sim_parent_ok [OF s assms(3)] sim_append1 [OF s, of r D]
    by (simp add: os_mkdir_def nofail_def logev_def)
qed

lemma simulates_requests_get:
  "http e1 = http e2 \<Longrightarrow> simulates a b (=) (requests_get e1 url) (requests_get e2 url)"
  by (cases "http e2 url") (simp_all add: requests_get_def simulates_raise simulates_ret)

lemma simulates_raise_for_status: "simulates a b (=) (raise_for_status r) (raise_for_status r)"
  by (simp add: raise_for_status_def simulates_raise simulates_ret)

lemma simulates_parse_total: "simulates a b (=) (parse_total r) (parse_total r)"
  by (simp add: parse_total_def simulates_raise simulates_ret split: option.splits)

lemma simulates_say_total: "simulates a b (=) (say_total tot m other) (say_total tot m other)"
  by (simp add: say_total_def simulates_say simulates_ret split: option.splits)

lemma simulates_write_chunks:
  assumes "nofail e1" "nofail e2" "r \<noteq> []"
  shows "simulates a b (=) (write_chunks e1 (a @ r) tot cs d) (write_chunks e2 (b @ r) tot cs d)"
proof (induction cs arbitrary: d)
  case Nil
  show ?case by (simp add: simulates_ret)
next
  case (Cons c cs)
  show ?case
  proof (cases "c = []")
    case True
    then show ?thesis using Cons by simp
  next
    case False
    then show ?thesis
      by (auto intro!: simulates_bnd_eq simulates_file_write [OF assms] simulates_say_total Cons)
  qed
qed

lemma simulates_download_zip:
  assumes "nofail e1" "nofail e2" "http e1 = http e2" "r \<noteq> []"
  shows "simulates a b (\<lambda>_ _. True) (download_zip e1 url (a @ r)) (download_zip e2 url (b @ r))"
  unfolding download_zip_def
  by (intro simulates_bnd_eq simulates_say simulates_requests_get assms(3)
      simulates_raise_for_status simulates_parse_total simulates_open_wb assms
      simulates_write_chunks simulates_say_total)
    (auto intro!: simulates_raise simulates_ret)


lemma simulates_write_member:
  assumes "nofail e1" "nofail e2" "r \<noteq> []"
  shows "simulates a b (=) (write_member e1 (a @ r) c) (write_member e2 (b @ r) c)"
  unfolding write_member_def
  by (auto intro!: simulates_bnd_eq simulates_open_wb simulates_file_write assms simulates_ret)

lemma simulates_extract_member:
  assumes nf: "nofail e1" "nofail e2" and d: "d \<noteq> []"
  shows "simulates a b (=) (extract_member e1 (a @ d) member) (extract_member e2 (b @ d) member)"
proof -
  define arc where "arc = sanitize (fst member)"
  define r where "r = d @ arc"
  define u where "u = butlast r"
  have r: "r \<noteq> []" using d by (simp add: r_def)
  have ta: "(a @ d) @ arc = a @ r" and tb: "(b @ d) @ arc = b @ r" by (simp_all add: r_def)
  have ua: "butlast (a @ r) = a @ u" and ub: "butlast (b @ r) = b @ u"
    using r by (simp_all add: u_def butlast_append)
  have up: "simulates a b (=)
      (\<lambda>w. if a @ u \<noteq> [] \<and> \<not> path_exists (tab w) (a @ u) then os_makedirs e1 (a @ u) w
            else ret () w)
      (\<lambda>v. if b @ u \<noteq> [] \<and> \<not> path_exists (tab v) (b @ u) then os_makedirs e2 (b @ u) v
            else ret () v)"
  proof (rule simulates_if)
    fix w v :: world
    assume s: "sim a b (tab w) (tab v)"
    then have "a \<noteq> []" "b \<noteq> []" by (auto simp add: sim_def)
    then show "(a @ u \<noteq> [] \<and> \<not> path_exists (tab w) (a @ u)) =
               (b @ u \<noteq> [] \<and> \<not> path_exists (tab v) (b @ u))"
      using sim_exists [OF s, of u] by simp
  qed (auto intro!: simulates_os_makedirs nf simulates_ret)
  have mk: "simulates a b (=)
      (\<lambda>w. if \<not> path_isdir (tab w) (a @ r) then os_mkdir e1 (a @ r) w else ret () w)
      (\<lambda>v. if \<not> path_isdir (tab v) (b @ r) then os_mkdir e2 (b @ r) v else ret () v)"
  proof (rule simulates_if)
    fix w v :: world
    assume s: "sim a b (tab w) (tab v)"
    show "(\<not> path_isdir (tab w) (a @ r)) = (\<not> path_isdir (tab v) (b @ r))"
      using sim_isdir [OF s, of r] by simp
  qed (auto intro!: simulates_os_mkdir nf r simulates_ret)
  show ?thesis
    unfolding extract_member_def Let_def arc_def [symmetric] ta tb ua ub
    by (cases "snd member")
       (auto simp del: append_is_Nil_conv
          intro!: simulates_raise simulates_bnd_eq up mk simulates_write_member nf r)
qed

lemma simulates_extractall:
  assumes "nofail e1" "nofail e2" "d \<noteq> []"
  shows "simulates a b (=) (extractall e1 (a @ d) members) (extractall e2 (b @ d) members)"
  by (induction members)
     (auto intro!: simulates_ret simulates_bnd_eq simulates_extract_member assms)

lemma simulates_extract_zip:
  assumes "nofail e1" "nofail e2" "unzip e1 = unzip e2" "d \<noteq> []"
  shows "simulates a b (\<lambda>_ _. True) (extract_zip e1 (a @ z) (a @ d)) (extract_zip e2 (b @ z) (b @ d))"
  unfolding extract_zip_def
  by (intro simulates_bnd_eq simulates_say simulates_zipfile_open simulates_extractall assms
        simulates_bnd [where V = "(=)" and U = "\<lambda>_ _. True"])
     (auto intro!: simulates_ret)

lemma confined_requests_get: "confined dest (requests_get env url)"
  by (simp add: requests_get_def confined_ret confined_raise split: option.splits)

lemma confined_raise_for_status: "confined dest (raise_for_status r)"
  by (simp add: raise_for_status_def confined_ret confined_raise)

lemma confined_parse_total: "confined dest (parse_total r)"
  by (simp add: parse_total_def confined_ret confined_raise split: option.splits)

lemma confined_say_total: "confined dest (say_total tot m other)"
  by (simp add: say_total_def confined_ret confined_say split: option.splits)

lemma confined_write_chunks: "prefix dest p \<Longrightarrow> confined dest (write_chunks env p tot cs d)"
  by (induction cs arbitrary: d)
     (auto intro!: confined_ret confined_bnd confined_file_write confined_say_total)

lemma confined_download_zip: "prefix dest p \<Longrightarrow> confined dest (download_zip env url p)"
  unfolding download_zip_def
  by (auto intro!: confined_ret confined_raise confined_bnd confined_say confined_requests_get
      confined_raise_for_status confined_parse_total confined_open_wb confined_write_chunks
      confined_say_total)

lemma apart_below:
  assumes "apart a T"
  shows "\<not> prefix a (T @ r)" and "\<not> prefix (T @ r) a"
  using assms by (auto simp add: apart_def prefix_append dest: append_prefixD)

lemma confined_tree:
  assumes c: "confined dest m" and p: "prefix a dest" and ap: "apart a T"
  shows "map_of (tab (snd (m w))) (T @ r) = map_of (tab w) (T @ r)"
proof -
  have 1: "\<not> prefix dest (T @ r)"
    using apart_below(1) [OF ap, of r] p by (meson prefix_order.trans)
  have 2: "\<not> strict_prefix (T @ r) dest"
  proof
    assume "strict_prefix (T @ r) dest"
    then have "prefix (T @ r) dest" by (simp add: strict_prefix_def)
    then have "prefix (T @ r) a \<or> prefix a (T @ r)" using p by (rule prefix_same_cases)
    then show False using apart_below [OF ap, of r] by blast
  qed
  have "outside_kept dest (tab w) (tab (snd (m w)))" using c by (simp add: confined_def)
  then show ?thesis using 1 2 unfolding outside_kept_def by blast
qed

lemma simulatesD:
  assumes "simulates a b V m n" "sim a b (tab w) (tab v)"
  shows "sim a b (tab (snd (m w))) (tab (snd (n v)))" and "isl (fst (m w)) = isl (fst (n v))"
proof -
  have *: "sim a b (tab (snd (m w))) (tab (snd (n v))) \<and>
        (case fst (m w) of
           Inl e \<Rightarrow> isl (fst (n v))
         | Inr x \<Rightarrow> (case fst (n v) of Inl e \<Rightarrow> False | Inr y \<Rightarrow> V x y))"
    using assms unfolding simulates_def by blast
  then show "sim a b (tab (snd (m w))) (tab (snd (n v)))" by simp
  show "isl (fst (m w)) = isl (fst (n v))"
    using * by (cases "fst (m w)"; cases "fst (n v)") simp_all
qed

lemma tail_tree:
  assumes "\<And>e w. map_of (tab (snd (h e w))) q = map_of (tab w) q"
    and "\<And>w. map_of (tab (snd (c w))) q = map_of (tab w) q"
  shows "map_of (tab (snd (try_finally (try_except m h) c w))) q = map_of (tab (snd (m w))) q"
proof -
  obtain r w1 where m: "m w = (r, w1)" by (cases "m w")
  obtain r2 w2 where t: "try_except m h w = (r2, w2)" by (cases "try_except m h w")
  have "w2 = w1 \<or> (\<exists>e. w2 = snd (h e w1))"
    using m t by (auto simp add: try_except_def split: sum.splits if_splits) (metis snd_conv)
  then have "map_of (tab w2) q = map_of (tab w1) q"
    using assms(1) by auto
  moreover have "snd (try_finally (try_except m h) c w) = snd (c w2)"
    using t by (simp add: try_finally_def split: prod.splits sum.splits)
  ultimately show ?thesis using assms(2) [of w2] m by simp
qed

lemma steps_same_tree:
  assumes nf: "nofail e1" "nofail e2" and h: "http e1 = http e2" and z: "unzip e1 = unzip e2"
    and s: "sim a b (tab w) (tab v)" and tw: "tidy (tab w)" and tv: "tidy (tab v)"
    and apa: "apart a T" and apb: "apart b T"
    and ew: "\<And>r. map_of (tab w) (T @ r) = (if r = [] then Some D else None)"
    and ev: "\<And>r. map_of (tab v) (T @ r) = (if r = [] then Some D else None)"
  shows "map_of (tab (snd (apply_steps e1 T url bk1 a w))) (T @ r) =
         map_of (tab (snd (apply_steps e2 T url bk2 b v))) (T @ r)"
proof -
  have ne: "a \<noteq> []" "b \<noteq> []" using s by (auto simp add: sim_def)
  let ?za = "join a ''patch.zip''" and ?zb = "join b ''patch.zip''"
  let ?xa = "join a ''extracted''" and ?xb = "join b ''extracted''"
  obtain r1 w1 where d1: "download_zip e1 url ?za w = (r1, w1)"
    by (cases "download_zip e1 url ?za w")
  obtain q1 v1 where d2: "download_zip e2 url ?zb v = (q1, v1)"
    by (cases "download_zip e2 url ?zb v")
  have sd: "simulates a b (\<lambda>_ _. True) (download_zip e1 url ?za) (download_zip e2 url ?zb)"
    unfolding join_def by (rule simulates_download_zip [OF nf h]) simp
  have s1: "sim a b (tab w1) (tab v1)" and i1: "isl r1 = isl q1"
    using simulatesD [OF sd s] d1 d2 by simp_all
  have tw1: "tidy (tab w1)"
    using keepsD [OF tidy_download_zip tw, of ?za e1 url] d1 by (simp add: join_def)
  have tv1: "tidy (tab v1)"
    using keepsD [OF tidy_download_zip tv, of ?zb e2 url] d2 by (simp add: join_def)
  have ew1: "map_of (tab w1) (T @ r) = (if r = [] then Some D else None)" for r
    using confined_tree [OF confined_download_zip _ apa, of a ?za e1 url w r] d1 ew
    by (simp add: join_def)
  have ev1: "map_of (tab v1) (T @ r) = (if r = [] then Some D else None)" for r
    using confined_tree [OF confined_download_zip _ apb, of b ?zb e2 url v r] d2 ev
    by (simp add: join_def)
  obtain r2 w2 where x1: "extract_zip e1 ?za ?xa w1 = (r2, w2)"
    by (cases "extract_zip e1 ?za ?xa w1")
  obtain q2 v2 where x2: "extract_zip e2 ?zb ?xb v1 = (q2, v2)"
    by (cases "extract_zip e2 ?zb ?xb v1")
  have sx: "simulates a b (\<lambda>_ _. True) (extract_zip e1 ?za ?xa) (extract_zip e2 ?zb ?xb)"
    unfolding join_def by (rule simulates_extract_zip [OF nf z]) simp
  have s2: "sim a b (tab w2) (tab v2)" and i2: "isl r2 = isl q2"
    using simulatesD [OF sx s1] x1 x2 by simp_all
  have tw2: "tidy (tab w2)"
    using keepsD [OF tidy_extract_zip tw1, of ?xa e1 ?za] x1 by (simp add: join_def)
  have tv2: "tidy (tab v2)"
    using keepsD [OF tidy_extract_zip tv1, of ?xb e2 ?zb] x2 by (simp add: join_def)
  have ew2: "map_of (tab w2) (T @ r) = (if r = [] then Some D else None)" for r
    using confined_tree [OF confined_extract_zip _ apa, of ?xa e1 ?za w1 r] x1 ew1
    by (simp add: join_def)
  have ev2: "map_of (tab v2) (T @ r) = (if r = [] then Some D else None)" for r
    using confined_tree [OF confined_extract_zip _ apb, of ?xb e2 ?zb v1 r] x2 ev1
    by (simp add: join_def)
  obtain r3 w3 where m1: "copy_top_level_folders e1 ?xa T w2 = (r3, w3)"
    by (cases "copy_top_level_folders e1 ?xa T w2")
  obtain q3 v3 where m2: "copy_top_level_folders e2 ?xb T v2 = (q3, v3)"
    by (cases "copy_top_level_folders e2 ?xb T v2")
  have same3: "map_of (tab w3) (T @ r) = map_of (tab v3) (T @ r) \<and> isl r3 = isl q3"
  proof (cases "path_isdir (tab w2) ?xa")
    case True
    then have True': "path_isdir (tab v2) ?xb"
      using sim_isdir [OF s2, of "[''extracted'']"] by (simp add: join_def)
    have axa: "apart ?xa T"
      using apart_below [OF apa, of "[]"] apa
      by (auto simp add: apart_def join_def prefix_snoc dest: append_prefixD)
    have axb: "apart ?xb T"
      using apart_below [OF apb, of "[]"] apb
      by (auto simp add: apart_def join_def prefix_snoc dest: append_prefixD)
    have dTw: "path_isdir (tab w2) T" and dTv: "path_isdir (tab v2) T"
      using ew2 [of "[]"] ev2 [of "[]"] by (simp_all add: path_isdir_def)
    have emw: "\<forall>r. r \<noteq> [] \<longrightarrow> map_of (tab w2) (T @ r) = None"
      and emv: "\<forall>r. r \<noteq> [] \<longrightarrow> map_of (tab v2) (T @ r) = None"
      using ew2 ev2 by simp_all
    obtain ap1 w3' where a: "copy_top_level_folders e1 ?xa T w2 = (Inr ap1, w3')"
        "\<forall>r. map_of (tab w3') (T @ r) = (if r = [] then Some D else map_of (tab w2) (?xa @ r))"
      using merge_into_empty [OF nf(1) tw2 axa True dTw emw] by blast
    obtain ap2 v3' where b: "copy_top_level_folders e2 ?xb T v2 = (Inr ap2, v3')"
        "\<forall>r. map_of (tab v3') (T @ r) = (if r = [] then Some D else map_of (tab v2) (?xb @ r))"
      using merge_into_empty [OF nf(2) tv2 axb True' dTv emv] by blast
    have "map_of (tab w2) (?xa @ r) = map_of (tab v2) (?xb @ r)"
      using sim_map [OF s2, of "''extracted'' # r"] by (simp add: join_def)
    then show ?thesis using a b m1 m2 by simp
  next
    case False
    then have False': "\<not> path_isdir (tab v2) ?xb"
      using sim_isdir [OF s2, of "[''extracted'']"] by (simp add: join_def)
    have "copy_top_level_folders e1 ?xa T w2 = (Inl (OSError (Listdir ?xa)), w2)"
      using False by (simp add: copy_top_level_folders_def bnd_def os_listdir_def)
    moreover have "copy_top_level_folders e2 ?xb T v2 = (Inl (OSError (Listdir ?xb)), v2)"
      using False' by (simp add: copy_top_level_folders_def bnd_def os_listdir_def)
    ultimately show ?thesis using m1 m2 ew2 ev2 by simp
  qed
  have A: "tab (snd (apply_steps e1 T url bk1 a w)) =
           (if isl r1 then tab w1 else if isl r2 then tab w2 else tab w3)"
    using d1 x1 m1
    by (cases r1; cases r2; cases r3)
       (simp_all add: apply_steps_def Let_def bnd_def say_def say_backup_def logev_def ret_def
         split: option.splits)
  have B: "tab (snd (apply_steps e2 T url bk2 b v)) =
           (if isl q1 then tab v1 else if isl q2 then tab v2 else tab v3)"
    using d2 x2 m2
    by (cases q1; cases q2; cases q3)
       (simp_all add: apply_steps_def Let_def bnd_def say_def say_backup_def logev_def ret_def
         split: option.splits)
  show ?thesis unfolding A B using i1 i2 same3 ew1 ev1 ew2 ev2 by simp
qed

lemma make_backup_keeps:
  "map_of (tab w) q = Some k \<Longrightarrow> map_of (tab (snd (make_backup env T w))) q = Some k"
  by (simp add: make_backup_def Let_def bnd_def say_def ret_def shutil_copytree_def logev_def
      map_add_def split: prod.splits sum.splits)

lemma bnd_say: "bnd (say m) f w = f () (logev (Out m) w)"
  by (simp add: bnd_def say_def)

lemma bnd_Inl: "m w = (Inl e, w') \<Longrightarrow> bnd m f w = (Inl e, w')"
  by (simp add: bnd_def)

lemma bnd_Inr: "m w = (Inr x, w') \<Longrightarrow> bnd m f w = f x w'"
  by (simp add: bnd_def)

lemma apply_prepare:
  assumes nf: "nofail env" and t: "tidy (tab w)" and d: "path_isdir (tab w) T"
    and g: "\<not> prefix T (gettempdir env)"
    and run: "apply_action env T patch w = (Inr (), w')"
  shows "\<exists>bk w3. tidy (tab w3) \<and> apart (staging env) T \<and>
           (\<forall>r. map_of (tab w3) (T @ r) = (if r = [] then Some D else None)) \<and>
           (\<forall>r. map_of (tab w3) (staging env @ r) = (if r = [] then Some D else None)) \<and>
           (\<forall>p. prefix p (staging env) \<and> p \<noteq> [] \<longrightarrow> map_of (tab w3) p = Some D) \<and>
           (\<forall>r. map_of (tab w') (T @ r) =
                map_of (tab (snd (apply_steps env T (snd patch) bk (staging env) w3))) (T @ r))"
proof -
  let ?a = "staging env"
  define w0 where "w0 = logev (Out (MsgApplying (fst patch))) w"
  have tab0: "tab w0 = tab w" by (simp add: w0_def logev_def)
  obtain rb wb where b: "make_backup env T w0 = (rb, wb)" by (cases "make_backup env T w0")
  have tb: "tidy (tab wb)"
    using keepsD [OF tidy_make_backup [OF nf], of w0 T] t tab0 b by simp
  have db: "path_isdir (tab wb) T"
    using make_backup_keeps [of w0 T D env T] d tab0 b by (simp add: path_isdir_def)
  obtain w2 where c: "clear_folder_contents env T wb = (Inr (), w2)"
      and em2: "\<forall>r. r \<noteq> [] \<longrightarrow> map_of (tab w2) (T @ r) = None"
      and fr2: "\<forall>q. \<not> strict_prefix T q \<longrightarrow> map_of (tab w2) q = map_of (tab wb) q"
      and t2: "tidy (tab w2)"
    using clear_empties [OF nf tb db] by blast
  have d2: "map_of (tab w2) T = Some D" using fr2 db by (simp add: path_isdir_def)
  have unf: "apply_action env T patch w =
      bnd (make_backup env T) (\<lambda>backup.
      bnd (clear_folder_contents env T) (\<lambda>_.
      bnd (tempfile_mkdtemp env) (\<lambda>tmpdir.
      try_finally
        (try_except (apply_steps env T (snd patch) backup tmpdir)
           (\<lambda>e. bnd (say (MsgError e)) (\<lambda>_. say_backup backup MsgRestore)))
        (rmtree_ignore_errors env tmpdir)))) w0"
    unfolding apply_action_def bnd_say w0_def ..
  obtain bk where rb: "rb = Inr bk"
  proof (cases rb)
    case (Inl e)
    then have "bnd (make_backup env T) f w0 = (Inl e, wb)" for f :: "path option \<Rightarrow> unit act"
      using b by (simp add: bnd_def)
    then show ?thesis using run unfolding unf by simp
  next
    case (Inr bk)
    then show ?thesis using that by simp
  qed
  have b': "make_backup env T w0 = (Inr bk, wb)" using b rb by simp
  have rest: "bnd (tempfile_mkdtemp env) (\<lambda>tmpdir.
       try_finally
         (try_except (apply_steps env T (snd patch) bk tmpdir)
            (\<lambda>e. bnd (say (MsgError e)) (\<lambda>_. say_backup bk MsgRestore)))
         (rmtree_ignore_errors env tmpdir)) w2 = (Inr (), w')"
    using run
    unfolding unf bnd_Inr [where m = "make_backup env T" and w = w0, OF b']
      bnd_Inr [where m = "clear_folder_contents env T" and w = wb, OF c] .
  define bad where "bad = (fails env (Mkdtemp ?a) \<or> path_exists (tab w2) ?a \<or>
      \<not> path_isdir (tab w2) (gettempdir env))"
  define w3 where "w3 = logev (Ev (Mkdtemp ?a) True) (w2\<lparr>tab := tab w2 @ [(?a, D)]\<rparr>)"
  have mk: "tempfile_mkdtemp env w2 =
      (if bad then (Inl (OSError (Mkdtemp ?a)), logev (Ev (Mkdtemp ?a) False) w2)
       else (Inr ?a, w3))"
    by (simp add: tempfile_mkdtemp_def Let_def staging_def bad_def w3_def)
  have nbad: "\<not> bad"
  proof
    assume bad
    then have "tempfile_mkdtemp env w2 =
        (Inl (OSError (Mkdtemp ?a)), logev (Ev (Mkdtemp ?a) False) w2)"
      using mk by simp
    then have "bnd (tempfile_mkdtemp env) f w2 =
        (Inl (OSError (Mkdtemp ?a)), logev (Ev (Mkdtemp ?a) False) w2)" for f :: "path \<Rightarrow> unit act"
      by (simp add: bnd_def)
    then show False using rest by simp
  qed
  have m: "tempfile_mkdtemp env w2 = (Inr ?a, w3)" using mk nbad by simp
  have fresh: "map_of (tab w2) ?a = None" using nbad by (simp add: bad_def path_exists_def)
  have tab3: "tab w3 = tab w2 @ [(?a, D)]" by (simp add: w3_def logev_def)
  have ane: "?a \<noteq> []" by (simp add: staging_def join_def)
  have t3: "tidy (tab w3)"
    using keepsD [OF tidy_tempfile_mkdtemp t2, of env] m by simp
  have ap: "apart ?a T"
    unfolding apart_def
  proof
    show "\<not> prefix ?a T"
      using tidy_below_missing [OF t2 fresh ane, of T] d2 by auto
    show "\<not> prefix T ?a"
    proof
      assume "prefix T ?a"
      then have "T = ?a \<or> prefix T (gettempdir env)"
        by (auto simp add: staging_def join_def prefix_snoc)
      then show False using g fresh d2 by auto
    qed
  qed
  have T3: "map_of (tab w3) (T @ r) = (if r = [] then Some D else None)" for r
  proof -
    have "T @ r \<noteq> ?a" using apart_below(2) [OF ap, of r] by auto
    then have "map_of (tab w3) (T @ r) = map_of (tab w2) (T @ r)"
      by (simp add: tab3 map_add_def split: option.splits)
    then show ?thesis using em2 d2 by simp
  qed
  have a3: "map_of (tab w3) (?a @ r) = (if r = [] then Some D else None)" for r
  proof (cases "r = []")
    case True
    then show ?thesis using fresh by (simp add: tab3 map_add_def)
  next
    case False
    have "map_of (tab w2) (?a @ r) = None"
      using tidy_below_missing [OF t2 fresh ane, of "?a @ r"] by simp
    then show ?thesis using False by (simp add: tab3 map_add_def)
  qed
  have anc: "map_of (tab w3) p = Some D" if "prefix p ?a" "p \<noteq> []" for p
  proof (cases "p = ?a")
    case True
    then show ?thesis using a3 [of "[]"] by simp
  next
    case False
    then have "strict_prefix p ?a" using that(1) by (simp add: strict_prefix_def)
    moreover have "map_of (tab w3) ?a \<noteq> None" using a3 [of "[]"] by simp
    ultimately show ?thesis using tidy_ancestor [OF t3 _ _ that(2)] by blast
  qed
  have fin: "try_finally
         (try_except (apply_steps env T (snd patch) bk ?a)
            (\<lambda>e. bnd (say (MsgError e)) (\<lambda>_. say_backup bk MsgRestore)))
         (rmtree_ignore_errors env ?a) w3 = (Inr (), w')"
    using rest unfolding bnd_Inr [where m = "tempfile_mkdtemp env" and w = w2, OF m] .
  have tree: "map_of (tab w') (T @ r) =
        map_of (tab (snd (apply_steps env T (snd patch) bk ?a w3))) (T @ r)" for r
  proof -
    have h: "map_of (tab (snd (bnd (say (MsgError e)) (\<lambda>_. say_backup bk MsgRestore) x))) (T @ r) =
             map_of (tab x) (T @ r)" for e x
      by (simp add: bnd_def say_def say_backup_def logev_def ret_def split: option.splits)
    have c: "map_of (tab (snd (rmtree_ignore_errors env ?a x))) (T @ r) = map_of (tab x) (T @ r)"
      for x
      using shutil_rmtree_frame [OF apart_below(1) [OF ap, of r], of env x]
      by (simp add: rmtree_ignore_errors_def)
    have "map_of (tab (snd (try_finally
           (try_except (apply_steps env T (snd patch) bk ?a)
              (\<lambda>e. bnd (say (MsgError e)) (\<lambda>_. say_backup bk MsgRestore)))
           (rmtree_ignore_errors env ?a) w3))) (T @ r) =
          map_of (tab (snd (apply_steps env T (snd patch) bk ?a w3))) (T @ r)"
      by (rule tail_tree [where h = "\<lambda>e. bnd (say (MsgError e)) (\<lambda>_. say_backup bk MsgRestore)"
            and c = "rmtree_ignore_errors env ?a"]) (rule h, rule c)
    then show ?thesis unfolding fin by simp
  qed
  show ?thesis using t3 ap T3 a3 anc tree by blast
qed

lemma apply_action_same_tree:
  assumes nf: "nofail e1" "nofail e2" and h: "http e1 = http e2" and z: "unzip e1 = unzip e2"
    and tw: "tidy (tab w)" and tv: "tidy (tab v)"
    and dw: "path_isdir (tab w) T" and dv: "path_isdir (tab v) T"
    and g1: "\<not> prefix T (gettempdir e1)" and g2: "\<not> prefix T (gettempdir e2)"
    and r1: "apply_action e1 T patch w = (Inr (), w')"
    and r2: "apply_action e2 T patch v = (Inr (), v')"
  shows "map_of (tab w') (T @ r) = map_of (tab v') (T @ r)"
proof -
  let ?a = "staging e1" and ?b = "staging e2"
  obtain bk1 w3 where A: "tidy (tab w3)" "apart ?a T"
      "\<forall>r. map_of (tab w3) (T @ r) = (if r = [] then Some D else None)"
      "\<forall>r. map_of (tab w3) (?a @ r) = (if r = [] then Some D else None)"
      "\<forall>p. prefix p ?a \<and> p \<noteq> [] \<longrightarrow> map_of (tab w3) p = Some D"
      "\<forall>r. map_of (tab w') (T @ r) =
           map_of (tab (snd (apply_steps e1 T (snd patch) bk1 ?a w3))) (T @ r)"
    using apply_prepare [OF nf(1) tw dw g1 r1] by blast
  obtain bk2 v3 where B: "tidy (tab v3)" "apart ?b T"
      "\<forall>r. map_of (tab v3) (T @ r) = (if r = [] then Some D else None)"
      "\<forall>r. map_of (tab v3) (?b @ r) = (if r = [] then Some D else None)"
      "\<forall>p. prefix p ?b \<and> p \<noteq> [] \<longrightarrow> map_of (tab v3) p = Some D"
      "\<forall>r. map_of (tab v') (T @ r) =
           map_of (tab (snd (apply_steps e2 T (snd patch) bk2 ?b v3))) (T @ r)"
    using apply_prepare [OF nf(2) tv dv g2 r2] by blast
  have s: "sim ?a ?b (tab w3) (tab v3)"
    unfolding sim_def using A(4,5) B(4,5) by (simp add: staging_def join_def)
  have "map_of (tab (snd (apply_steps e1 T (snd patch) bk1 ?a w3))) (T @ r) =
        map_of (tab (snd (apply_steps e2 T (snd patch) bk2 ?b v3))) (T @ r)"
    using steps_same_tree [OF nf h z s A(1) B(1) A(2) B(2)] A(3) B(3) by blast
  then show ?thesis using A(6) B(6) by simp
qed

lemma apply_action_needs_dir:
  assumes "path_exists (tab w) T" "\<not> path_isdir (tab w) T"
  shows "isl (fst (apply_action env T patch w))"
proof -
  define w0 where "w0 = logev (Out (MsgApplying (fst patch))) w"
  have "\<exists>e w1. make_backup env T w0 = (Inl e, w1)"
    using assms
    by (simp add: w0_def make_backup_def Let_def bnd_say shutil_copytree_def logev_def bnd_def
        say_def)
  then obtain e w1 where "make_backup env T w0 = (Inl e, w1)" by blast
  then have "apply_action env T patch w = (Inl e, w1)"
    unfolding apply_action_def bnd_say w0_def
    by (rule bnd_Inl [where m = "make_backup env T"])
  then show ?thesis by simp
qed

lemma main_apply:
  assumes run: "main env l1 l2 w = (Inr (), w')"
    and a: "py_strip l2 \<in> set (map fst PATCHES)"
    and nf: "nofail env" and t: "tidy (tab w)"
  shows "\<exists>w0 patch. tidy (tab w0) \<and> path_isdir (tab w0) (chosen env l1) \<and>
           apply_action env (chosen env l1) patch w0 = (Inr (), w') \<and>
           map_of PATCHES (py_strip l2) = Some patch"
proof -
  let ?T = "chosen env l1"
  define wm where "wm = logev (Out MsgMenu) (logev (Out (MsgTarget ?T)) (logev (Out MsgBanner) w))"
  have tabm: "tab wm = tab w" by (simp add: wm_def logev_def)
  obtain patch where p: "map_of PATCHES (py_strip l2) = Some patch" and n4: "py_strip l2 \<noteq> ''4''"
    using a by (auto simp add: PATCHES_def)
  have a4: "py_strip l2 \<in> set [''1'', ''2'', ''3'', ''4'']" using a by (auto simp add: PATCHES_def)
  have b: "body env ?T (py_strip l2) = apply_action env ?T patch"
    using p n4 by (simp add: body_def)
  have m: "bnd (create_missing env ?T) (\<lambda>_. apply_action env ?T patch) wm = (Inr (), w')"
    using run a4 b unfolding main_unfold wm_def by (auto split: if_splits)
  obtain rc w0 where c: "create_missing env ?T wm = (rc, w0)" by (cases "create_missing env ?T wm")
  have rc: "rc = Inr ()" using m c by (cases rc) (auto simp add: bnd_Inl)
  have r0: "apply_action env ?T patch w0 = (Inr (), w')" using m c rc by (simp add: bnd_Inr)
  have ex: "path_exists (tab w0) ?T" using create_missing_cases [OF c] rc by auto
  have t0: "tidy (tab w0)"
    using keepsD [OF tidy_create_missing, of wm env ?T] t tabm c by simp
  have "path_isdir (tab w0) ?T"
    using apply_action_needs_dir [OF ex, of env patch] r0 by auto
  then show ?thesis using t0 r0 p by blast
qed

section \<open>The claims\<close>




text \<open>
  Claim C8, as stated, fails: without a \<^verbatim>\<open>content-length\<close> header
  \<^verbatim>\<open>download_zip\<close> prints nothing between the chunks, only
  \<^verbatim>\<open>download complete.\<close> at the end. Here the two chunks are written one after the
  other with no line in between.
\<close>

theorem download_zip_no_length_no_progress:
  "trace (snd (download_zip env_nolen ''u'' zip0 tdir)) =
     [Out (MsgDownloading ''u''), Ev (Open zip0) True,
      Ev (Write zip0 0) True, Ev (Write zip0 2) True,
      Out MsgDownloadComplete]"
  by code_simp

text \<open>
  Claim C8, amended. In a download that completes, the lines and writes are exactly
  these: the announcement, the opening of the file, then for each chunk that is not
  empty the write and, when the header gives a total that is a decimal number other than
  0, a progress line with the bytes so far, the total and the percentage; at the end one
  line, with the total when there is one. With no such total there is no progress line.
\<close>

theorem download_zip_progress:
  assumes "http env url = Some r"
    and "download_zip env url dest_path w = (Inr p, w')"
  shows "trace w' =
           trace w @ [Out (MsgDownloading url), Ev (Open dest_path) True] @
           chunk_lines dest_path (header_total r) 0 (filter (\<lambda>c. c \<noteq> []) (chunks r)) @
           [case header_total r of
              None \<Rightarrow> Out MsgDownloadComplete
            | Some n \<Rightarrow> Out (MsgDownloaded (sum_list (map length (chunks r))) n)]"
proof -
  define w0 where "w0 = logev (Out (MsgDownloading url)) w"
  have t0: "trace w0 = trace w @ [Out (MsgDownloading url)]" by (simp add: w0_def logev_def)
  have rg: "requests_get env url w0 = (Inr r, w0)"
    using assms(1) by (simp add: requests_get_def ret_def)
  have rs: "w2 = w1" if "raise_for_status r w1 = (Inr (), w2)" for w1 w2
    using that by (auto simp add: raise_for_status_def ret_def raise_def split: if_splits)
  from assms(2) obtain tot w1 d w2 w3 where
    tot: "pos_total tot = header_total r" and
    op: "open_wb env dest_path w0 = (Inr (), w1)" and
    wc: "write_chunks env dest_path tot (chunks r) 0 w1 = (Inr d, w2)" and
    br: "(if broken r then raise ConnectionError else ret ()) w2 = (Inr (), w3)" and
    fin: "say_total tot (MsgDownloaded d) (Some MsgDownloadComplete) w3 = (Inr (), w')"
    unfolding download_zip_def
    by (auto dest!: bnd_Inr_E parse_total_pos rs simp add: say_def rg w0_def [symmetric] ret_def)
  have t1: "trace w1 = trace w0 @ [Ev (Open dest_path) True]"
    using op by (auto simp add: open_wb_def logev_def split: if_splits)
  have t2: "trace w2 = trace w1 @
              chunk_lines dest_path (header_total r) 0 (filter (\<lambda>c. c \<noteq> []) (chunks r))"
    and d: "d = sum_list (map length (chunks r))"
    using write_chunks_trace [OF wc] tot by simp_all
  have w3: "w3 = w2"
    using br by (auto simp add: ret_def raise_def split: if_splits)
  have t3: "trace w' = trace w3 @
              [case pos_total tot of
                 None \<Rightarrow> Out MsgDownloadComplete
               | Some n \<Rightarrow> Out (MsgDownloaded d n)]"
    using fin by (cases tot) (auto simp add: say_total_def say_def logev_def pos_total_def)
  show ?thesis
    using t0 t1 t2 t3 w3 tot unfolding d by simp
qed

theorem download_zip_progress_witness:
  "http env0 ''u'' = Some resp0 \<and>
   fst (download_zip env0 ''u'' zip0 tdir) = Inr zip0 \<and>
   trace (snd (download_zip env0 ''u'' zip0 tdir)) =
     [Out (MsgDownloading ''u''), Ev (Open zip0) True,
      Ev (Write zip0 0) True, Out (MsgProgress 2 3 66),
      Ev (Write zip0 2) True, Out (MsgProgress 3 3 100),
      Out (MsgDownloaded 3 3)]"
proof -
  have h: "http env0 ''u'' = Some resp0" by (simp add: env0_def)
  have f: "fst (download_zip env0 ''u'' zip0 tdir) = Inr zip0"
    by code_simp
  have run: "download_zip env0 ''u'' zip0 tdir = (Inr zip0, snd (download_zip env0 ''u'' zip0 tdir))"
    using f by (metis prod.collapse)
  have tot: "header_total resp0 = Some 3"
    by (simp add: header_total_def resp0_def py_isdigit_def py_int_def ascii_digit_def)
  have tr: "trace (snd (download_zip env0 ''u'' zip0 tdir)) =
     [Out (MsgDownloading ''u''), Ev (Open zip0) True,
      Ev (Write zip0 0) True, Out (MsgProgress 2 3 66),
      Ev (Write zip0 2) True, Out (MsgProgress 3 3 100),
      Out (MsgDownloaded 3 3)]"
    using download_zip_progress [OF h run] tot
    by (simp add: chunk_lines_def bytes_before_def resp0_def tdir_def)
  show ?thesis
    using h f tr by blast
qed

text \<open>
  Claim C10. When the extraction root and the target are apart and
  \<^verbatim>\<open>copy_top_level_folders\<close> returns, the list it returns is the list of the children
  of the extraction root that are directories, in the order of \<^verbatim>\<open>os.listdir\<close>; each of
  them was copied with \<^verbatim>\<open>shutil.copytree\<close>. Every other child was given to
  \<^verbatim>\<open>shutil.copy2\<close>, copied or skipped, and is not in the list.
\<close>

theorem copy_top_level_folders_applied:
  assumes "apart src_root dst_root"
    and "copy_top_level_folders env src_root dst_root w = (Inr applied, w')"
  shows "applied = filter (\<lambda>n. path_isdir (tab w) (join src_root n)) (listdir_names (tab w) src_root) \<and>
         (\<forall>n \<in> set (listdir_names (tab w) src_root).
            copied_as src_root dst_root (news w w')
              (path_isdir (tab w) (join src_root n)) n)"
proof -
  from assms(2) have
    run: "copy_entries env src_root dst_root (listdir_names (tab w) src_root) [] w = (Inr applied, w')"
    by (auto simp add: copy_top_level_folders_def bnd_def os_listdir_def split: if_splits)
  from copy_entries_run [OF assms(1) run] show ?thesis by (auto simp add: news_def)
qed



theorem copy_top_level_folders_applied_witness:
  "apart xroot res \<and>
   listdir_names (tab world2) xroot = [''packA'', ''readme.txt''] \<and>
   fst (copy_top_level_folders env0 xroot res world2) = Inr [''packA''] \<and>
   copied_as xroot res (news world2 (snd (copy_top_level_folders env0 xroot res world2)))
     True ''packA'' \<and>
   copied_as xroot res (news world2 (snd (copy_top_level_folders env0 xroot res world2)))
     False ''readme.txt''"
proof -
  have ap: "apart xroot res" by (simp add: apart_def xroot_def res_def)
  have f: "fst (copy_top_level_folders env0 xroot res world2) = Inr [''packA'']"
    by code_simp
  have run: "copy_top_level_folders env0 xroot res world2 =
      (Inr [''packA''], snd (copy_top_level_folders env0 xroot res world2))"
    using f by (metis prod.collapse)
  have names: "listdir_names (tab world2) xroot = [''packA'', ''readme.txt'']"
    by (simp add: listdir_names_def world2_def xroot_def res_def)
  have kinds: "path_isdir (tab world2) (join xroot ''packA'')"
    "\<not> path_isdir (tab world2) (join xroot ''readme.txt'')"
    by (simp_all add: path_isdir_def join_def world2_def xroot_def res_def)
  show ?thesis
    using copy_top_level_folders_applied [OF ap run] ap f names kinds by (simp add: news_def)
qed

text \<open>
  Claim C7, as stated, fails for a directory. With the archive of \<open>env0\<close>, whose top
  level holds \<^verbatim>\<open>packA\<close>, \<^verbatim>\<open>packB\<close> and \<^verbatim>\<open>readme.txt\<close>, and a failing copy of
  \<^verbatim>\<open>packB\<close>: the exception leaves the merge, \<^verbatim>\<open>main\<close> prints the error and not the
  success, and \<^verbatim>\<open>readme.txt\<close> is never reached.
\<close>

theorem directory_copy_failure_is_fatal:
  "fst (main env_packB ''2'' ''1'' tdir) = Inr () \<and>
   Out (MsgCopiedPack ''packA'') \<in> set (trace (snd (main env_packB ''2'' ''1'' tdir))) \<and>
   Out (MsgError (OSError (Copytree (tmp0 @ [''extracted'', ''packB'']) (gdk @ [''packB'']))))
     \<in> set (trace (snd (main env_packB ''2'' ''1'' tdir))) \<and>
   Out MsgSuccess \<notin> set (trace (snd (main env_packB ''2'' ''1'' tdir))) \<and>
   listdir_names (tab (snd (main env_packB ''2'' ''1'' tdir))) gdk = [''packA'']"
  by code_simp

text \<open>
  Claim C7, amended. After a download and an extraction that succeed, if the extraction
  root can be listed and no copy of a directory fails, then the merge returns, every
  child of the extraction root was handled (copied as a pack, copied as a file, or
  skipped with a message when the copy of the file failed), and the body of the \<^verbatim>\<open>try\<close>
  ends with the line of success. So the failed copy of a file is never fatal; the failed
  copy of a directory is.
\<close>

theorem file_copy_failure_not_fatal:
  assumes dl: "download_zip env url (join tmpdir ''patch.zip'') w = (Inr z, w1)"
    and ex: "extract_zip env (join tmpdir ''patch.zip'') (join tmpdir ''extracted'') w1 = (Inr x, w2)"
    and ls: "path_isdir (tab w2) (join tmpdir ''extracted'')"
            "\<not> fails env (Listdir (join tmpdir ''extracted''))"
    and mg: "copy_top_level_folders env (join tmpdir ''extracted'') target w2 = (r, w3)"
    and nd: "\<forall>s d. Ev (Copytree s d) False \<notin> set (news w2 w3)"
  shows "(\<exists>applied. r = Inr applied) \<and>
         (\<forall>n \<in> set (listdir_names (tab w2) (join tmpdir ''extracted'')).
            handled (join tmpdir ''extracted'') target (news w2 w3) n) \<and>
         fst (apply_steps env target url backup tmpdir w) = Inr () \<and>
         last (trace (snd (apply_steps env target url backup tmpdir w))) = Out MsgSuccess"
proof -
  define names where "names = listdir_names (tab w2) (join tmpdir ''extracted'')"
  have run: "copy_entries env (join tmpdir ''extracted'') target names [] w2 = (r, w3)"
    using mg ls by (simp add: copy_top_level_folders_def bnd_def os_listdir_def names_def)
  from copy_entries_events [OF run] obtain evs where
    ev: "trace w3 = trace w2 @ evs" and
    c: "case r of
          Inr result \<Rightarrow> \<forall>n \<in> set names. handled (join tmpdir ''extracted'') target evs n
        | Inl e \<Rightarrow> \<exists>n \<in> set names.
            e = OSError (Copytree (join (join tmpdir ''extracted'') n) (join target n)) \<and>
            Ev (Copytree (join (join tmpdir ''extracted'') n) (join target n)) False \<in> set evs"
    by blast
  have nw: "news w2 w3 = evs" using ev by (simp add: news_def)
  obtain applied where r: "r = Inr applied"
    using c nd nw by (cases r) auto
  have h: "\<forall>n \<in> set names. handled (join tmpdir ''extracted'') target (news w2 w3) n"
    using c r nw by simp
  have steps: "apply_steps env target url backup tmpdir w =
      bnd (say_backup backup MsgBackupAvailable) (\<lambda>_. say MsgSuccess)
        (logev (Out (MsgAppliedCount (length applied))) w3)"
    using dl ex mg r by (simp add: apply_steps_def Let_def bnd_def say_def)
  have "fst (apply_steps env target url backup tmpdir w) = Inr ()"
    "last (trace (snd (apply_steps env target url backup tmpdir w))) = Out MsgSuccess"
    unfolding steps
    by (cases backup; simp add: say_backup_def bnd_def say_def ret_def logev_def)+
  then show ?thesis using r h by (simp add: names_def)
qed

theorem file_copy_failure_not_fatal_witness:
  "fst (copy_top_level_folders env_skip (join tmp0 ''extracted'') res
     (snd (extract_zip env_skip (join tmp0 ''patch.zip'') (join tmp0 ''extracted'')
        (snd (download_zip env_skip ''u'' (join tmp0 ''patch.zip'') world3))))) = Inr [''packA'', ''packB''] \<and>
   fst (apply_steps env_skip res ''u'' None tmp0 world3) = Inr () \<and>
   Out (MsgSkipped ''readme.txt'') \<in> set (trace (snd (apply_steps env_skip res ''u'' None tmp0 world3))) \<and>
   last (trace (snd (apply_steps env_skip res ''u'' None tmp0 world3))) = Out MsgSuccess"
proof -
  define w1 where "w1 = snd (download_zip env_skip ''u'' (join tmp0 ''patch.zip'') world3)"
  define w2 where "w2 = snd (extract_zip env_skip (join tmp0 ''patch.zip'') (join tmp0 ''extracted'') w1)"
  define w3 where "w3 = snd (copy_top_level_folders env_skip (join tmp0 ''extracted'') res w2)"
  have "fst (download_zip env_skip ''u'' (join tmp0 ''patch.zip'') world3) = Inr (join tmp0 ''patch.zip'')"
    by code_simp
  then have dl: "download_zip env_skip ''u'' (join tmp0 ''patch.zip'') world3 = (Inr (join tmp0 ''patch.zip''), w1)"
    unfolding w1_def by (metis prod.collapse)
  have "fst (extract_zip env_skip (join tmp0 ''patch.zip'') (join tmp0 ''extracted'') w1) = Inr (join tmp0 ''extracted'')"
    unfolding w1_def by code_simp
  then have ex: "extract_zip env_skip (join tmp0 ''patch.zip'') (join tmp0 ''extracted'') w1 = (Inr (join tmp0 ''extracted''), w2)"
    unfolding w2_def by (metis prod.collapse)
  have ls: "path_isdir (tab w2) (join tmp0 ''extracted'')" "\<not> fails env_skip (Listdir (join tmp0 ''extracted''))"
    unfolding w2_def w1_def by code_simp+
  have f: "fst (copy_top_level_folders env_skip (join tmp0 ''extracted'') res w2) = Inr [''packA'', ''packB'']"
    unfolding w2_def w1_def by code_simp
  then have mg: "copy_top_level_folders env_skip (join tmp0 ''extracted'') res w2 = (Inr [''packA'', ''packB''], w3)"
    unfolding w3_def by (metis prod.collapse)
  have nw: "news w2 w3 =
     [Ev (Copytree (tmp0 @ [''extracted'', ''packA'']) (res @ [''packA''])) True, Out (MsgCopiedPack ''packA''),
      Ev (Copytree (tmp0 @ [''extracted'', ''packB'']) (res @ [''packB''])) True, Out (MsgCopiedPack ''packB''),
      Ev (Copy2 (tmp0 @ [''extracted'', ''readme.txt'']) (res @ [''readme.txt''])) False, Out (MsgSkipped ''readme.txt'')]"
    unfolding w3_def w2_def w1_def by code_simp
  have nd: "\<forall>s d. Ev (Copytree s d) False \<notin> set (news w2 w3)"
    unfolding nw by simp
  have sk: "Out (MsgSkipped ''readme.txt'') \<in> set (trace (snd (apply_steps env_skip res ''u'' None tmp0 world3)))"
    by code_simp
  show ?thesis
    using file_copy_failure_not_fatal [OF dl ex ls mg nd, of None] f sk
    unfolding w2_def w1_def by simp
qed


text \<open>
  Claim C1. In every session, among the events of \<open>main\<close> no removal at or below the
  target comes before the successful copy of the target to its backup path: when
  \<^verbatim>\<open>clear_folder_contents\<close> or the merge removes something, \<^verbatim>\<open>make_backup\<close> has
  completed. This holds for the clear-only action and for the three patches, and whether
  or not the target existed before the run.
\<close>

theorem backup_before_removal:
  "backed_up_first (Ev (Copytree (chosen env l1) (backup_path env (chosen env l1))) True)
     (chosen env l1) (news w (snd (main env l1 l2 w)))"
proof -
  define target where "target = chosen env l1"
  define bk where "bk = Ev (Copytree target (backup_path env target)) True"
  define w2 where "w2 = logev (Out MsgMenu) (logev (Out (MsgTarget target)) (logev (Out MsgBanner) w))"
  have t2: "trace w2 = trace w @ [Out MsgBanner, Out (MsgTarget target), Out MsgMenu]"
    by (simp add: w2_def logev_def)
  consider (v) "py_strip l1 \<noteq> ''1'' \<and> py_strip l1 \<noteq> ''2''"
    | (c) "\<not> (py_strip l1 \<noteq> ''1'' \<and> py_strip l1 \<noteq> ''2'')" "py_strip l2 \<notin> set [''1'', ''2'', ''3'', ''4'']"
    | (ok) "\<not> (py_strip l1 \<noteq> ''1'' \<and> py_strip l1 \<noteq> ''2'')" "py_strip l2 \<in> set [''1'', ''2'', ''3'', ''4'']"
    by blast
  then have "backed_up_first bk target (news w (snd (main env l1 l2 w)))"
  proof cases
    case v
    then show ?thesis by (simp add: main_unfold news_def logev_def)
  next
    case c
    then show ?thesis by (simp add: main_unfold news_def logev_def)
  next
    case ok
    obtain rc w3 where cm: "create_missing env target w2 = (rc, w3)"
      by (cases "create_missing env target w2")
    from create_missing_run [OF cm, of target] obtain e3 where
      q3: "\<forall>e \<in> set e3. \<not> removal_under target e" and t3: "trace w3 = trace w2 @ e3"
      and ex: "rc = Inr () \<longrightarrow> path_exists (tab w3) target"
      by (auto simp add: news_def)
    have m: "main env l1 l2 w = bnd (create_missing env target) (\<lambda>_. body env target (py_strip l2)) w2"
      using ok by (auto simp add: main_unfold target_def w2_def)
    show ?thesis
    proof (cases rc)
      case (Inl e)
      then have "snd (main env l1 l2 w) = w3" using m cm by (simp add: bnd_def)
      moreover have "news w w3 = [Out MsgBanner, Out (MsgTarget target), Out MsgMenu] @ e3"
        using t2 t3 by (simp add: news_def)
      ultimately show ?thesis using q3 by (auto intro!: backed_up_first_quiet)
    next
      case (Inr u)
      then have fin: "snd (main env l1 l2 w) = snd (body env target (py_strip l2) w3)"
        using m cm by (simp add: bnd_def)
      have ex3: "path_exists (tab w3) target" using ex Inr by simp
      have b: "backed_up_first bk target (news w3 (snd (body env target (py_strip l2) w3)))"
        and g: "\<exists>evs. trace (snd (body env target (py_strip l2) w3)) = trace w3 @ evs"
        using body_cases [OF ok(2), of env target] clear_action_backed_up [OF ex3, of env]
          apply_action_backed_up [OF ex3, of env] emits_gen [OF emits_clear_action]
          emits_gen [OF emits_apply_action]
        by (auto simp add: bk_def)
      from g obtain evs where evs: "trace (snd (body env target (py_strip l2) w3)) = trace w3 @ evs"
        by blast
      have n: "news w (snd (main env l1 l2 w)) =
                 ([Out MsgBanner, Out (MsgTarget target), Out MsgMenu] @ e3) @
                 news w3 (snd (body env target (py_strip l2) w3))"
      proof -
        have "news w3 (snd (body env target (py_strip l2) w3)) = evs"
          by (rule news_append [OF evs])
        moreover have "news w (snd (body env target (py_strip l2) w3)) =
            ([Out MsgBanner, Out (MsgTarget target), Out MsgMenu] @ e3) @ evs"
          by (rule news_append) (simp add: evs t2 t3)
        ultimately show ?thesis unfolding fin by simp
      qed
      show ?thesis unfolding n using q3 b by (intro backed_up_first_append) auto
    qed
  qed
  then show ?thesis by (simp add: bk_def target_def)
qed

theorem backup_before_removal_witness:
  "chosen env0 ''2'' = gdk \<and>
   Ev (Rmtree (gdk @ [''vanilla''])) True \<in> set (news world4 (snd (main env0 ''2'' ''1'' world4))) \<and>
   backed_up_first (Ev (Copytree gdk (backup_path env0 gdk)) True) gdk
     (news world4 (snd (main env0 ''2'' ''1'' world4)))"
proof -
  have c: "chosen env0 ''2'' = gdk"
    by (simp add: chosen_def py_strip_def is_space_def PATH_GDK_def env0_def gdk_def)
  have r: "Ev (Rmtree (gdk @ [''vanilla''])) True
             \<in> set (news world4 (snd (main env0 ''2'' ''1'' world4)))"
    by code_simp
  show ?thesis
    using backup_before_removal [of env0 "''2''" world4 "''1''"] c r by simp
qed

text \<open>
  Claim C2 against the code. The target \<open>gdk\<close> does not exist before the run and the
  operator chooses the clear-only action. \<open>main\<close> creates the target before it calls
  \<^verbatim>\<open>make_backup\<close>, so \<^verbatim>\<open>make_backup\<close> finds the target, never prints
  \<^verbatim>\<open>Target folder does not exist; skipping backup.\<close>, copies the empty directory and
  returns the backup path, which \<open>main\<close> prints. The session completes, with a backup.
\<close>

theorem backup_of_created_target:
  "\<not> path_exists (tab tdir) gdk \<and>
   fst (main env0 ''2'' ''4'' tdir) = Inr () \<and>
   news tdir (snd (main env0 ''2'' ''4'' tdir)) =
     [Out MsgBanner, Out (MsgTarget gdk), Out MsgMenu,
      Out MsgCreatingTarget, Ev (Makedirs gdk) True,
      Out MsgClearingPatched,
      Out (MsgCreatingBackup gdk_bk), Ev (Copytree gdk gdk_bk) True, Out MsgBackupComplete,
      Out MsgClearing, Out MsgFolderCleared, Out MsgCleared,
      Out (MsgBackupLocated gdk_bk)] \<and>
   path_isdir (tab (snd (main env0 ''2'' ''4'' tdir))) gdk_bk"
  by code_simp

text \<open>
  Claim C3, as stated, fails when the removal of the staging directory fails:
  \<^verbatim>\<open>shutil.rmtree(tmpdir, ignore_errors=True)\<close> ignores the failure, the session ends
  with the patch applied, and the staging directory and the archive in it are still
  there.
\<close>

theorem staging_left_when_removal_fails:
  "fst (main env_lock ''2'' ''1'' tdir) = Inr () \<and>
   Out MsgSuccess \<in> set (trace (snd (main env_lock ''2'' ''1'' tdir))) \<and>
   last (trace (snd (main env_lock ''2'' ''1'' tdir))) = Ev (Rmtree tmp0) False \<and>
   path_isdir (tab (snd (main env_lock ''2'' ''1'' tdir))) tmp0 \<and>
   path_exists (tab (snd (main env_lock ''2'' ''1'' tdir))) (tmp0 @ [''patch.zip''])"
  by code_simp

text \<open>
  Claim C3, amended. In every run of the apply pipeline in which the staging directory
  was created, the run returns without an exception, whichever step failed, and its last
  event is the removal of the staging directory; when that removal succeeds, nothing is
  left at or below the staging directory.
\<close>

theorem staging_cleanup:
  assumes run: "apply_action env target patch w = (r, w')"
    and made: "Ev (Mkdtemp (staging env)) True \<in> set (news w w')"
  shows "r = Inr () \<and>
         (\<exists>b. last (trace w') = Ev (Rmtree (staging env)) b \<and>
              (b \<longrightarrow> (\<forall>q. prefix (staging env) q \<longrightarrow> map_of (tab w') q = None)))"
proof -
  define tmp where "tmp = staging env"
  define P where "P = (\<lambda>e. e \<noteq> Ev (Mkdtemp tmp) True)"
  define w0 where "w0 = logev (Out (MsgApplying (fst patch))) w"
  have t0: "trace w0 = trace w @ [Out (MsgApplying (fst patch))]" by (simp add: w0_def logev_def)
  obtain rb w1 where mb: "make_backup env target w0 = (rb, w1)"
    by (cases "make_backup env target w0")
  have "emits P (make_backup env target)"
    by (rule emits_make_backup) (simp_all add: P_def)
  then obtain e1 where e1: "trace w1 = trace w0 @ e1" "\<forall>e \<in> set e1. P e"
    using mb unfolding emits_def by (metis snd_conv)
  obtain rc w2 where cl: "clear_folder_contents env target w1 = (rc, w2)"
    by (cases "clear_folder_contents env target w1")
  have "emits P (clear_folder_contents env target)"
    by (rule emits_clear_folder_contents) (simp_all add: P_def)
  then obtain e2 where e2: "trace w2 = trace w1 @ e2" "\<forall>e \<in> set e2. P e"
    using cl unfolding emits_def by (metis snd_conv)
  obtain rt w3 where mk: "tempfile_mkdtemp env w2 = (rt, w3)"
    by (cases "tempfile_mkdtemp env w2")
  have notmade: False if "news w w' = Out (MsgApplying (fst patch)) # evs" "\<forall>e \<in> set evs. P e" for evs
    using made that by (auto simp add: P_def tmp_def)
  show ?thesis
  proof (cases rb)
    case (Inl e)
    then have "w' = w1" using run mb by (simp add: apply_action_def bnd_def say_def w0_def)
    then have "news w w' = Out (MsgApplying (fst patch)) # e1"
      using t0 e1 by (intro news_append) simp
    then show ?thesis using notmade e1 by blast
  next
    case backup: (Inr backup)
    show ?thesis
    proof (cases rc)
      case (Inl e)
      then have "w' = w2" using run mb cl backup
        by (simp add: apply_action_def bnd_def say_def w0_def)
      then have "news w w' = Out (MsgApplying (fst patch)) # (e1 @ e2)"
        using t0 e1 e2 by (intro news_append) simp
      then show ?thesis using notmade [of "e1 @ e2"] e1 e2 by auto
    next
      case cleared: (Inr u)
      show ?thesis
      proof (cases rt)
        case (Inl e)
        then have "w' = w3" using run mb cl mk backup cleared
          by (simp add: apply_action_def bnd_def say_def w0_def)
        moreover have "trace w3 = trace w2 @ [Ev (Mkdtemp tmp) False]"
          using mk Inl by (auto simp add: tempfile_mkdtemp_def Let_def logev_def tmp_def staging_def split: if_splits)
        ultimately have "news w w' = Out (MsgApplying (fst patch)) # (e1 @ e2 @ [Ev (Mkdtemp tmp) False])"
          using t0 e1 e2 by (intro news_append) simp
        then show ?thesis using notmade [of "e1 @ e2 @ [Ev (Mkdtemp tmp) False]"] e1 e2
          by (auto simp add: P_def)
      next
        case (Inr tmpdir)
        have td: "tmpdir = tmp"
          using mk Inr by (auto simp add: tempfile_mkdtemp_def Let_def tmp_def staging_def split: if_splits)
        obtain w4 where g: "try_except (apply_steps env target (snd patch) backup tmp)
              (\<lambda>e. bnd (say (MsgError e)) (\<lambda>_. say_backup backup MsgRestore)) w3 = (Inr (), w4)"
          using guarded_returns [OF raises_apply_steps] by blast
        obtain b w5 where fin: "rmtree_ignore_errors env tmp w4 = (Inr (), w5)"
          and last: "trace w5 = trace w4 @ [Ev (Rmtree tmp) b]"
          and gone: "b \<longrightarrow> (\<forall>q. prefix tmp q \<longrightarrow> map_of (tab w5) q = None)"
          using rmtree_ignore_errors_last [of env tmp w4] by blast
        have res: "apply_action env target patch w = (Inr (), w5)"
          using mb cl mk backup cleared Inr td g fin
          by (simp add: apply_action_def bnd_def say_def w0_def try_finally_def)
        have "r = Inr ()" "last (trace w') = Ev (Rmtree tmp) b" "w' = w5"
          using run res last by auto
        then show ?thesis using gone by (auto simp add: tmp_def)
      qed
    qed
  qed
qed


theorem staging_cleanup_witness:
  "staging env0 = tmp0 \<and>
   Ev (Mkdtemp tmp0) True \<in> set (news world4 (snd (apply_action env0 gdk (''n'', ''u'') world4))) \<and>
   fst (apply_action env0 gdk (''n'', ''u'') world4) = Inr () \<and>
   last (trace (snd (apply_action env0 gdk (''n'', ''u'') world4))) = Ev (Rmtree tmp0) True \<and>
   map_of (tab (snd (apply_action env0 gdk (''n'', ''u'') world4))) (tmp0 @ [''patch.zip'']) = None"
proof -
  define w' where "w' = snd (apply_action env0 gdk (''n'', ''u'') world4)"
  have st: "staging env0 = tmp0"
    by (simp add: staging_def env0_def tmp0_def join_def)
  have run: "apply_action env0 gdk (''n'', ''u'') world4 =
              (fst (apply_action env0 gdk (''n'', ''u'') world4), w')"
    by (simp add: w'_def)
  have made: "Ev (Mkdtemp tmp0) True \<in> set (news world4 w')"
    unfolding w'_def by code_simp
  have l: "last (trace w') = Ev (Rmtree tmp0) True"
    unfolding w'_def by code_simp
  have p: "prefix tmp0 (tmp0 @ [''patch.zip''])" by simp
  from staging_cleanup [OF run] made st l p
  show ?thesis unfolding w'_def [symmetric] by auto
qed

text \<open>
  Claim C5. If the copy made by \<^verbatim>\<open>make_backup\<close> fails in a session, then \<open>main\<close>
  ends with that exception; the events of the session are the prompts, the creation of a
  missing target, the line of the action, and the failed backup, with nothing after it
  (no clearing, download, extraction or merge); and every entry at or below the target
  is as before the run, except that a missing target has been created.
\<close>

theorem backup_failure_aborts:
  assumes run: "main env l1 l2 w = (r, w')"
    and target: "target = chosen env l1" and bk: "bk = backup_path env target"
    and failed: "Ev (Copytree target bk) False \<in> set (news w w')"
  shows "r = Inl (OSError (Copytree target bk)) \<and>
         (\<exists>created am.
            news w w' = [Out MsgBanner, Out (MsgTarget target), Out MsgMenu] @ created @
                        [Out am, Out (MsgCreatingBackup bk), Ev (Copytree target bk) False] \<and>
            (created = [] \<or> created = [Out MsgCreatingTarget, Ev (Makedirs target) True]) \<and>
            (am = MsgClearingPatched \<or> (\<exists>name. am = MsgApplying name))) \<and>
         (\<forall>q. prefix target q \<longrightarrow>
            map_of (tab w') q = map_of (tab w) q \<or>
            (q = target \<and> map_of (tab w) target = None \<and> map_of (tab w') target = Some D))"
proof -
  define w2 where "w2 = logev (Out MsgMenu) (logev (Out (MsgTarget target)) (logev (Out MsgBanner) w))"
  have t2: "trace w2 = trace w @ [Out MsgBanner, Out (MsgTarget target), Out MsgMenu]"
    by (simp add: w2_def logev_def)
  have tab2: "tab w2 = tab w" by (simp add: w2_def logev_def)
  have tne: "target \<noteq> []" using target chosen_nonempty by simp
  have v: "\<not> (py_strip l1 \<noteq> ''1'' \<and> py_strip l1 \<noteq> ''2'')"
  proof
    assume "py_strip l1 \<noteq> ''1'' \<and> py_strip l1 \<noteq> ''2''"
    then have "news w w' = [Out MsgBanner, Out MsgInvalidSelection]"
      using run by (auto simp add: main_unfold news_def logev_def)
    then show False using failed by simp
  qed
  have c: "py_strip l2 \<in> set [''1'', ''2'', ''3'', ''4'']"
  proof (rule ccontr)
    assume "py_strip l2 \<notin> set [''1'', ''2'', ''3'', ''4'']"
    then have "news w w' = [Out MsgBanner, Out (MsgTarget target), Out MsgMenu, Out MsgInvalidSelection]"
      using run v by (auto simp add: main_unfold news_def logev_def target)
    then show False using failed by simp
  qed
  have m: "main env l1 l2 w = bnd (create_missing env target) (\<lambda>_. body env target (py_strip l2)) w2"
    using v c by (auto simp add: main_unfold target w2_def)
  obtain rc w3 where cm: "create_missing env target w2 = (rc, w3)"
    by (cases "create_missing env target w2")
  note cases = create_missing_cases [OF cm]
  have t3: "trace w3 = trace w2 @ news w2 w3" using cases by simp
  have fr3: "map_of (tab w3) q = map_of (tab w) q \<or>
            (q = target \<and> map_of (tab w) target = None \<and> map_of (tab w3) target = Some D)"
    if "prefix target q" for q
    using cases that tab2 by simp
  have ok: "rc = Inr ()"
  proof (rule ccontr)
    assume n: "rc \<noteq> Inr ()"
    then have rc: "rc = Inl (OSError (Makedirs target))"
      and n3: "news w2 w3 = [Out MsgCreatingTarget, Ev (Makedirs target) False]"
      using cases by auto
    have "w' = w3" using run m cm rc by (simp add: bnd_def)
    then have "news w w' = [Out MsgBanner, Out (MsgTarget target), Out MsgMenu,
                            Out MsgCreatingTarget, Ev (Makedirs target) False]"
      using t2 t3 n3 by (intro news_append) simp
    then show False using failed by simp
  qed
  have ex3: "path_exists (tab w3) target"
    and created: "news w2 w3 = [] \<or> news w2 w3 = [Out MsgCreatingTarget, Ev (Makedirs target) True]"
    using cases ok by auto
  have fin: "(r, w') = body env target (py_strip l2) w3"
    using run m cm ok by (simp add: bnd_def)
  obtain am rest where
    shape: "body env target (py_strip l2) = bnd (say am) (\<lambda>_. bnd (make_backup env target) rest)"
    and am: "am = MsgClearingPatched \<or> (\<exists>name. am = MsgApplying name)"
    and rest: "\<And>backup. emits (\<lambda>e. e \<noteq> Ev (Copytree target (backup_path env target)) False) (rest backup)"
  proof -
    from body_cases [OF c, of env target] show ?thesis
    proof
      assume b: "body env target (py_strip l2) = clear_action env target"
      show ?thesis
        by (rule that [of MsgClearingPatched "\<lambda>backup. bnd (clear_folder_contents env target) (\<lambda>_.
             bnd (say MsgCleared) (\<lambda>_. say_backup backup MsgBackupLocated))"])
           (simp_all add: b clear_action_def emits_clear_rest_P [simplified])
    next
      assume "\<exists>patch. body env target (py_strip l2) = apply_action env target patch"
      then obtain patch where b: "body env target (py_strip l2) = apply_action env target patch"
        by blast
      have nc: "join target n \<noteq> backup_path env target" for n
        using backup_path_not_child [OF tne, of env n] by simp
      show ?thesis
        by (rule that [of "MsgApplying (fst patch)" "\<lambda>backup. bnd (clear_folder_contents env target) (\<lambda>_.
             bnd (tempfile_mkdtemp env) (\<lambda>tmpdir.
             try_finally
               (try_except
                  (apply_steps env target (snd patch) backup tmpdir)
                  (\<lambda>e. bnd (say (MsgError e)) (\<lambda>_. say_backup backup MsgRestore)))
               (rmtree_ignore_errors env tmpdir)))"])
           (simp_all add: b apply_action_def emits_apply_rest_P [OF nc, simplified])
    qed
  qed
  have g: "\<exists>evs. trace w' = trace w3 @ evs"
  proof -
    have "emits (\<lambda>_. True) (body env target (py_strip l2))"
      using body_cases [OF c, of env target] emits_clear_action emits_apply_action by metis
    then show ?thesis using emits_gen fin by (metis snd_conv)
  qed
  then obtain evs where evs: "trace w' = trace w3 @ evs" by blast
  have n3: "news w3 w' = evs" by (rule news_append [OF evs])
  have nw: "news w w' = [Out MsgBanner, Out (MsgTarget target), Out MsgMenu] @ news w2 w3 @ evs"
    using t2 t3 evs by (intro news_append) simp
  have "Ev (Copytree target bk) False \<in> set evs"
    using failed nw created by auto
  then have f3: "Ev (Copytree target (backup_path env target)) False
      \<in> set (news w3 (snd (bnd (say am) (\<lambda>_. bnd (make_backup env target) rest) w3)))"
    using n3 fin shape bk by (metis snd_conv)
  from action_backup_failed [OF ex3 tne rest f3] fin shape
  have r: "r = Inl (OSError (Copytree target bk))"
    and e: "news w3 w' = [Out am, Out (MsgCreatingBackup bk), Ev (Copytree target bk) False]"
    and fr: "\<forall>q. prefix target q \<longrightarrow> map_of (tab w') q = map_of (tab w3) q"
    unfolding bk by (metis fst_conv, metis snd_conv, metis snd_conv)
  have "news w w' = [Out MsgBanner, Out (MsgTarget target), Out MsgMenu] @ news w2 w3 @
                    [Out am, Out (MsgCreatingBackup bk), Ev (Copytree target bk) False]"
    using nw n3 e by simp
  moreover have "map_of (tab w') q = map_of (tab w) q \<or>
            (q = target \<and> map_of (tab w) target = None \<and> map_of (tab w') target = Some D)"
    if "prefix target q" for q
    using fr fr3 [OF that] that by auto
  ultimately show ?thesis using r created am by blast
qed


theorem backup_failure_aborts_witness:
  "chosen env_bk ''2'' = gdk \<and> backup_path env_bk gdk = gdk_bk \<and>
   Ev (Copytree gdk gdk_bk) False \<in> set (news world4 (snd (main env_bk ''2'' ''1'' world4))) \<and>
   fst (main env_bk ''2'' ''1'' world4) = Inl (OSError (Copytree gdk gdk_bk)) \<and>
   last (trace (snd (main env_bk ''2'' ''1'' world4))) = Ev (Copytree gdk gdk_bk) False \<and>
   map_of (tab (snd (main env_bk ''2'' ''1'' world4))) (gdk @ [''vanilla'', ''f'']) = Some (F ''v'')"
proof -
  define w' where "w' = snd (main env_bk ''2'' ''1'' world4)"
  have c: "chosen env_bk ''2'' = gdk"
    by (simp add: chosen_def py_strip_def is_space_def PATH_GDK_def env_bk_def env0_def gdk_def)
  have b: "backup_path env_bk gdk = gdk_bk"
    by (simp add: backup_path_def dirname_def basename_def join_def now_stamp_def env_bk_def
        env0_def gdk_def gdk_bk_def)
  have run: "main env_bk ''2'' ''1'' world4 = (fst (main env_bk ''2'' ''1'' world4), w')"
    by (simp add: w'_def)
  have failed: "Ev (Copytree gdk gdk_bk) False \<in> set (news world4 w')"
    unfolding w'_def by code_simp
  have before: "map_of (tab world4) (gdk @ [''vanilla'', ''f'']) = Some (F ''v'')"
    by (simp add: world4_def gdk_def)
  have p: "prefix gdk (gdk @ [''vanilla'', ''f''])" "gdk @ [''vanilla'', ''f''] \<noteq> gdk" by simp_all
  from backup_failure_aborts [OF run c [symmetric] b [symmetric] failed]
  have r: "fst (main env_bk ''2'' ''1'' world4) = Inl (OSError (Copytree gdk gdk_bk))"
    and n: "\<exists>created am.
            news world4 w' = [Out MsgBanner, Out (MsgTarget gdk), Out MsgMenu] @ created @
                        [Out am, Out (MsgCreatingBackup gdk_bk), Ev (Copytree gdk gdk_bk) False]"
    and fr: "\<forall>q. prefix gdk q \<longrightarrow>
            map_of (tab w') q = map_of (tab world4) q \<or>
            (q = gdk \<and> map_of (tab world4) gdk = None \<and> map_of (tab w') gdk = Some D)"
    by blast+
  have l: "last (trace w') = Ev (Copytree gdk gdk_bk) False"
    unfolding w'_def by code_simp
  have "map_of (tab w') (gdk @ [''vanilla'', ''f'']) = Some (F ''v'')"
    using fr [rule_format, of "gdk @ [''vanilla'', ''f'']"] before by simp
  then show ?thesis using c b failed r l unfolding w'_def by blast
qed





text \<open>
  Claim C9, as stated, fails when a call fails in one of the two sessions. Here the copy
  of the file \<^verbatim>\<open>readme.txt\<close> fails in the first session and is skipped with a
  message; it does not fail in the second. Both sessions return and print that the patch
  was applied, and the file is missing under the target after the first session and
  there after the second.
\<close>

theorem apply_twice_tree_differs:
  "chosen env_once ''2'' = gdk \<and>
   fst (main env_once ''2'' ''1'' world4) = Inr () \<and>
   Out MsgSuccess \<in> set (trace (snd (main env_once ''2'' ''1'' world4))) \<and>
   fst (main (env_once\<lparr>stamp := ''20240102-000000'', rand := ''xyz''\<rparr>) ''2'' ''1''
          (snd (main env_once ''2'' ''1'' world4))) = Inr () \<and>
   Out MsgSuccess \<in>
     set (news (snd (main env_once ''2'' ''1'' world4))
         (snd (main (env_once\<lparr>stamp := ''20240102-000000'', rand := ''xyz''\<rparr>) ''2'' ''1''
            (snd (main env_once ''2'' ''1'' world4))))) \<and>
   map_of (tab (snd (main env_once ''2'' ''1'' world4))) (gdk @ [''readme.txt'']) = None \<and>
   map_of (tab (snd (main (env_once\<lparr>stamp := ''20240102-000000'', rand := ''xyz''\<rparr>) ''2'' ''1''
            (snd (main env_once ''2'' ''1'' world4))))) (gdk @ [''readme.txt'']) =
     Some (F ''r'')"
  by code_simp

text \<open>
  Claim C9, amended. Take a session that applies a patch of the catalogue, in an
  environment where no call fails for a reason of its own, from a tidy file system, with
  the temporary directory not inside the target; and then a second session with the same
  answers, from the file system that the first one left, at another time and with
  another random suffix for the staging directory. When both sessions return, the tree
  under the target is the same after the second session as after the first: every path
  at or below the target has the same kind and the same content.
\<close>

theorem apply_twice_same_tree:
  assumes nf: "nofail env" and tidy: "tidy (tab w)"
    and patch: "py_strip l2 \<in> set (map fst PATCHES)"
    and tmp: "\<not> prefix (chosen env l1) (gettempdir env)"
    and once: "main env l1 l2 w = (Inr (), w1)"
    and twice: "main (env\<lparr>stamp := s, rand := x\<rparr>) l1 l2 w1 = (Inr (), w2)"
  shows "map_of (tab w2) (chosen env l1 @ r) = map_of (tab w1) (chosen env l1 @ r)"
proof -
  let ?e = "env\<lparr>stamp := s, rand := x\<rparr>"
  have nf2: "nofail ?e" using nf by (simp add: nofail_def)
  have ch: "chosen ?e l1 = chosen env l1" by (simp add: chosen_def PATH_UWP_def PATH_GDK_def)
  have t1: "tidy (tab w1)" using tidy_main [OF nf tidy, of l1 l2] once by simp
  obtain wa pa where A: "tidy (tab wa)" "path_isdir (tab wa) (chosen env l1)"
      "apply_action env (chosen env l1) pa wa = (Inr (), w1)"
      "map_of PATCHES (py_strip l2) = Some pa"
    using main_apply [OF once patch nf tidy] by blast
  obtain wb pb where B: "tidy (tab wb)" "path_isdir (tab wb) (chosen env l1)"
      "apply_action ?e (chosen env l1) pb wb = (Inr (), w2)"
      "map_of PATCHES (py_strip l2) = Some pb"
    using main_apply [OF twice patch nf2 t1] ch by auto
  have same: "pb = pa" using A(4) B(4) by simp
  have "map_of (tab w2) (chosen env l1 @ r) = map_of (tab w1) (chosen env l1 @ r)"
    using apply_action_same_tree [of ?e env wb wa "chosen env l1" pa w2 w1 r]
      nf nf2 A B tmp same by simp
  then show ?thesis .
qed

theorem apply_twice_same_tree_witness:
  "nofail env0 \<and> tidy (tab world4) \<and> chosen env0 ''2'' = gdk \<and>
   py_strip ''1'' \<in> set (map fst PATCHES) \<and> \<not> prefix gdk (gettempdir env0) \<and>
   fst (main env0 ''2'' ''1'' world4) = Inr () \<and>
   fst (main (env0\<lparr>stamp := ''20240102-000000'', rand := ''xyz''\<rparr>) ''2'' ''1''
          (snd (main env0 ''2'' ''1'' world4))) = Inr () \<and>
   map_of (tab (snd (main (env0\<lparr>stamp := ''20240102-000000'', rand := ''xyz''\<rparr>) ''2'' ''1''
          (snd (main env0 ''2'' ''1'' world4))))) (gdk @ [''packA'', ''m.json'']) =
     map_of (tab (snd (main env0 ''2'' ''1'' world4))) (gdk @ [''packA'', ''m.json'']) \<and>
   map_of (tab (snd (main env0 ''2'' ''1'' world4))) (gdk @ [''packA'', ''m.json'']) =
     Some (F ''a'')"
proof -
  define w1 where "w1 = snd (main env0 ''2'' ''1'' world4)"
  define w2 where "w2 = snd (main (env0\<lparr>stamp := ''20240102-000000'', rand := ''xyz''\<rparr>)
                                ''2'' ''1'' w1)"
  have nf: "nofail env0" by (simp add: nofail_def env0_def)
  have t: "tidy (tab world4)" by code_simp
  have ch: "chosen env0 ''2'' = gdk" by code_simp
  have p: "py_strip ''1'' \<in> set (map fst PATCHES)" by code_simp
  have g: "\<not> prefix gdk (gettempdir env0)" by code_simp
  have f1: "fst (main env0 ''2'' ''1'' world4) = Inr ()" by code_simp
  have r1: "main env0 ''2'' ''1'' world4 = (Inr (), w1)"
    using f1 unfolding w1_def by (metis prod.collapse)
  have f2: "fst (main (env0\<lparr>stamp := ''20240102-000000'', rand := ''xyz''\<rparr>) ''2'' ''1'' w1) =
            Inr ()"
    unfolding w1_def by code_simp
  have r2: "main (env0\<lparr>stamp := ''20240102-000000'', rand := ''xyz''\<rparr>) ''2'' ''1'' w1 =
            (Inr (), w2)"
    using f2 unfolding w2_def by (metis prod.collapse)
  have v: "map_of (tab w1) (gdk @ [''packA'', ''m.json'']) = Some (F ''a'')"
    unfolding w1_def by code_simp
  have g': "\<not> prefix (chosen env0 ''2'') (gettempdir env0)" using g ch by simp
  from apply_twice_same_tree [OF nf t p g' r1 r2, of "[''packA'', ''m.json'']"]
  have "map_of (tab w2) (gdk @ [''packA'', ''m.json'']) =
        map_of (tab w1) (gdk @ [''packA'', ''m.json''])"
    using ch by simp
  then show ?thesis
    using nf t ch p g f1 f2 v unfolding w2_def w1_def by blast
qed

end
